theory Spec2Isabelle
  imports Complex_Main "HOL-Library.Signed_Division"
begin

section \<open>Piece catalog (piece.h, piece.c)\<close>

text \<open>
  The enums of piece.h are datatypes, so a value outside the seven piece types or the four
  rotation states cannot be written down; the \<open>NULL\<close> and \<open>0\<close> results that
  \<open>piece_get_shape\<close> and \<open>piece_get_color\<close> keep for such values have no input here.
  A C \<open>int\<close> is a mathematical integer: signed overflow is undefined in C, and the model
  agrees with the program on every run in which no \<open>int\<close> computation leaves the range
  \<open>INT_MIN..INT_MAX\<close> of limits.h (an \<open>int\<close> of 32 bits, as gcc has it on the Linux systems
  the Makefile builds for). A statement that ranges over every position of a piece says
  so with these bounds.
\<close>

definition INT_MAX :: int where
  "INT_MAX = 2147483647"

definition INT_MIN :: int where
  "INT_MIN = - 2147483648"

datatype PieceType = PIECE_I | PIECE_O | PIECE_T | PIECE_S | PIECE_Z | PIECE_J | PIECE_L

datatype RotationState = ROT_0 | ROT_90 | ROT_180 | ROT_270

text \<open>\<open>PieceShape\<close>: the four \<open>{x, y}\<close> pairs of \<open>cells[4][2]\<close>, in index order.\<close>

type_synonym PieceShape = "(int \<times> int) list"

definition PIECE_COUNT :: nat where
  "PIECE_COUNT = 7"

fun I_SHAPES :: "RotationState \<Rightarrow> PieceShape" where
  "I_SHAPES ROT_0 = [(0, 1), (1, 1), (2, 1), (3, 1)]"
| "I_SHAPES ROT_90 = [(2, 0), (2, 1), (2, 2), (2, 3)]"
| "I_SHAPES ROT_180 = [(0, 2), (1, 2), (2, 2), (3, 2)]"
| "I_SHAPES ROT_270 = [(1, 0), (1, 1), (1, 2), (1, 3)]"

fun O_SHAPES :: "RotationState \<Rightarrow> PieceShape" where
  "O_SHAPES ROT_0 = [(1, 0), (2, 0), (1, 1), (2, 1)]"
| "O_SHAPES ROT_90 = [(1, 0), (2, 0), (1, 1), (2, 1)]"
| "O_SHAPES ROT_180 = [(1, 0), (2, 0), (1, 1), (2, 1)]"
| "O_SHAPES ROT_270 = [(1, 0), (2, 0), (1, 1), (2, 1)]"

fun T_SHAPES :: "RotationState \<Rightarrow> PieceShape" where
  "T_SHAPES ROT_0 = [(1, 0), (0, 1), (1, 1), (2, 1)]"
| "T_SHAPES ROT_90 = [(1, 0), (1, 1), (2, 1), (1, 2)]"
| "T_SHAPES ROT_180 = [(0, 1), (1, 1), (2, 1), (1, 2)]"
| "T_SHAPES ROT_270 = [(1, 0), (0, 1), (1, 1), (1, 2)]"

fun S_SHAPES :: "RotationState \<Rightarrow> PieceShape" where
  "S_SHAPES ROT_0 = [(1, 0), (2, 0), (0, 1), (1, 1)]"
| "S_SHAPES ROT_90 = [(1, 0), (1, 1), (2, 1), (2, 2)]"
| "S_SHAPES ROT_180 = [(1, 1), (2, 1), (0, 2), (1, 2)]"
| "S_SHAPES ROT_270 = [(0, 0), (0, 1), (1, 1), (1, 2)]"

fun Z_SHAPES :: "RotationState \<Rightarrow> PieceShape" where
  "Z_SHAPES ROT_0 = [(0, 0), (1, 0), (1, 1), (2, 1)]"
| "Z_SHAPES ROT_90 = [(2, 0), (1, 1), (2, 1), (1, 2)]"
| "Z_SHAPES ROT_180 = [(0, 1), (1, 1), (1, 2), (2, 2)]"
| "Z_SHAPES ROT_270 = [(1, 0), (0, 1), (1, 1), (0, 2)]"

fun J_SHAPES :: "RotationState \<Rightarrow> PieceShape" where
  "J_SHAPES ROT_0 = [(0, 0), (0, 1), (1, 1), (2, 1)]"
| "J_SHAPES ROT_90 = [(1, 0), (2, 0), (1, 1), (1, 2)]"
| "J_SHAPES ROT_180 = [(0, 1), (1, 1), (2, 1), (2, 2)]"
| "J_SHAPES ROT_270 = [(1, 0), (1, 1), (0, 2), (1, 2)]"

fun L_SHAPES :: "RotationState \<Rightarrow> PieceShape" where
  "L_SHAPES ROT_0 = [(2, 0), (0, 1), (1, 1), (2, 1)]"
| "L_SHAPES ROT_90 = [(1, 0), (1, 1), (1, 2), (2, 2)]"
| "L_SHAPES ROT_180 = [(0, 1), (1, 1), (2, 1), (0, 2)]"
| "L_SHAPES ROT_270 = [(0, 0), (1, 0), (1, 1), (1, 2)]"

fun ROTATION_TABLES :: "PieceType \<Rightarrow> RotationState \<Rightarrow> PieceShape" where
  "ROTATION_TABLES PIECE_I = I_SHAPES"
| "ROTATION_TABLES PIECE_O = O_SHAPES"
| "ROTATION_TABLES PIECE_T = T_SHAPES"
| "ROTATION_TABLES PIECE_S = S_SHAPES"
| "ROTATION_TABLES PIECE_Z = Z_SHAPES"
| "ROTATION_TABLES PIECE_J = J_SHAPES"
| "ROTATION_TABLES PIECE_L = L_SHAPES"

fun PIECE_COLORS :: "PieceType \<Rightarrow> int" where
  "PIECE_COLORS PIECE_I = 1"
| "PIECE_COLORS PIECE_O = 2"
| "PIECE_COLORS PIECE_T = 3"
| "PIECE_COLORS PIECE_S = 4"
| "PIECE_COLORS PIECE_Z = 5"
| "PIECE_COLORS PIECE_J = 6"
| "PIECE_COLORS PIECE_L = 7"

definition piece_get_shape :: "PieceType \<Rightarrow> RotationState \<Rightarrow> PieceShape" where
  "piece_get_shape type rotation = ROTATION_TABLES type rotation"

definition piece_get_color :: "PieceType \<Rightarrow> int" where
  "piece_get_color type = PIECE_COLORS type"

text \<open>The enum values behind the casts \<open>(RotationState)(...)\<close> and \<open>(PieceType)(...)\<close>.\<close>

fun rotation_index :: "RotationState \<Rightarrow> nat" where
  "rotation_index ROT_0 = 0"
| "rotation_index ROT_90 = 1"
| "rotation_index ROT_180 = 2"
| "rotation_index ROT_270 = 3"

definition rotation_of_index :: "nat \<Rightarrow> RotationState" where
  "rotation_of_index n =
     (if n = 0 then ROT_0 else if n = 1 then ROT_90 else if n = 2 then ROT_180 else ROT_270)"

definition piece_of_index :: "nat \<Rightarrow> PieceType" where
  "piece_of_index n =
     (if n = 0 then PIECE_I else if n = 1 then PIECE_O else if n = 2 then PIECE_T
      else if n = 3 then PIECE_S else if n = 4 then PIECE_Z else if n = 5 then PIECE_J
      else PIECE_L)"

definition piece_rotate_cw :: "RotationState \<Rightarrow> RotationState" where
  "piece_rotate_cw current = rotation_of_index ((rotation_index current + 1) mod 4)"

section \<open>Board (board.h, board.c)\<close>

definition BOARD_WIDTH :: int where
  "BOARD_WIDTH = 10"

definition BOARD_HEIGHT :: int where
  "BOARD_HEIGHT = 20"

text \<open>
  \<open>int cells[BOARD_HEIGHT][BOARD_WIDTH]\<close> is an array of fixed size indexed by C ints:
  \<open>cells b y x\<close> is \<open>board->cells[y][x]\<close>. The program reads and writes it only at
  \<open>0 \<le> y < 20\<close> and \<open>0 \<le> x < 10\<close> (each access below sits behind the same guard or loop
  bound as in board.c), so the values of the function elsewhere belong to no cell.
\<close>

record Board =
  cells :: "int \<Rightarrow> int \<Rightarrow> int"

definition board_init :: "Board" where
  "board_init = \<lparr>cells = (\<lambda>y x. 0)\<rparr>"

text \<open>The body of the loop \<open>for (i = 0; i < 4; i++)\<close> of \<open>board_check_collision\<close>, on the
  blocks that are still to be checked; each \<open>return true\<close> ends the loop.\<close>

fun check_blocks :: "Board \<Rightarrow> int \<Rightarrow> int \<Rightarrow> (int \<times> int) list \<Rightarrow> bool" where
  "check_blocks board x y [] = False"
| "check_blocks board x y (c # rest) =
     (let block_x = x + fst c; block_y = y + snd c in
      if block_x < 0 \<or> block_x \<ge> BOARD_WIDTH then True
      else if block_y \<ge> BOARD_HEIGHT then True
      else if block_y < 0 then check_blocks board x y rest
      else if cells board block_y block_x \<noteq> 0 then True
      else check_blocks board x y rest)"

definition board_check_collision ::
  "Board \<Rightarrow> PieceType \<Rightarrow> RotationState \<Rightarrow> int \<Rightarrow> int \<Rightarrow> bool" where
  "board_check_collision board type rotation x y =
     check_blocks board x y (piece_get_shape type rotation)"

text \<open>The loop of \<open>board_lock_piece\<close>.\<close>

fun lock_blocks :: "Board \<Rightarrow> int \<Rightarrow> int \<Rightarrow> int \<Rightarrow> (int \<times> int) list \<Rightarrow> Board" where
  "lock_blocks board color x y [] = board"
| "lock_blocks board color x y (c # rest) =
     (let block_x = x + fst c; block_y = y + snd c in
      if block_x \<ge> 0 \<and> block_x < BOARD_WIDTH \<and> block_y \<ge> 0 \<and> block_y < BOARD_HEIGHT
      then lock_blocks
             (board\<lparr>cells := (cells board)(block_y := (cells board block_y)(block_x := color))\<rparr>)
             color x y rest
      else lock_blocks board color x y rest)"

definition board_lock_piece ::
  "Board \<Rightarrow> PieceType \<Rightarrow> RotationState \<Rightarrow> int \<Rightarrow> int \<Rightarrow> Board" where
  "board_lock_piece board type rotation x y =
     lock_blocks board (piece_get_color type) x y (piece_get_shape type rotation)"

definition board_get_cell :: "Board \<Rightarrow> int \<Rightarrow> int \<Rightarrow> int" where
  "board_get_cell board x y =
     (if x < 0 \<or> x \<ge> BOARD_WIDTH \<or> y < 0 \<or> y \<ge> BOARD_HEIGHT then 0
      else cells board y x)"

text \<open>The absolute cells \<open>(x + dx, y + dy)\<close> of a piece, as (column, row) pairs.\<close>

definition piece_cells :: "PieceType \<Rightarrow> RotationState \<Rightarrow> int \<Rightarrow> int \<Rightarrow> (int \<times> int) list" where
  "piece_cells type rotation x y =
     map (\<lambda>c. (x + fst c, y + snd c)) (piece_get_shape type rotation)"

subsection \<open>Clearing lines\<close>

text \<open>
  \<open>board_clear_lines\<close> is three nested loops. \<open>line_full\<close> is the scan of one row (the
  \<open>break\<close> at the first empty cell makes it a conjunction), \<open>copy_row_down\<close> the inner loop
  that copies row \<open>shift_y - 1\<close> into row \<open>shift_y\<close> cell by cell, \<open>shift_rows_down\<close> the
  loop \<open>for (shift_y = y; shift_y > 0; shift_y--)\<close>, \<open>clear_top_row\<close> the loop that zeroes
  row 0, and \<open>clear_lines_loop\<close> the outer loop \<open>for (y = BOARD_HEIGHT - 1; y >= 0; y--)\<close>:
  after a full row the body's \<open>y++\<close> and the loop's \<open>y--\<close> leave \<open>y\<close> where it was.
  The outer loop ends because each removed row makes one full row fewer among rows
  \<open>0..y\<close>; the lemmas between the definition and its termination proof establish that.
\<close>

definition line_full :: "Board \<Rightarrow> int \<Rightarrow> bool" where
  "line_full board y = list_all (\<lambda>x. cells board y x \<noteq> 0) [0..BOARD_WIDTH - 1]"

definition copy_row_down :: "Board \<Rightarrow> int \<Rightarrow> Board" where
  "copy_row_down board shift_y =
     fold (\<lambda>x b. b\<lparr>cells := (cells b)(shift_y := (cells b shift_y)(x := cells b (shift_y - 1) x))\<rparr>)
       [0..BOARD_WIDTH - 1] board"

function shift_rows_down :: "Board \<Rightarrow> int \<Rightarrow> Board" where
  "shift_rows_down board shift_y =
     (if shift_y > 0 then shift_rows_down (copy_row_down board shift_y) (shift_y - 1)
      else board)"
  by pat_completeness auto
termination
  by (relation "measure (\<lambda>(board, shift_y). nat shift_y)") auto

declare shift_rows_down.simps [simp del]

definition clear_top_row :: "Board \<Rightarrow> Board" where
  "clear_top_row board =
     fold (\<lambda>x b. b\<lparr>cells := (cells b)(0 := (cells b 0)(x := 0))\<rparr>) [0..BOARD_WIDTH - 1] board"

function clear_lines_loop :: "Board \<Rightarrow> int \<Rightarrow> int \<Rightarrow> Board \<times> int" where
  "clear_lines_loop board y lines_cleared =
     (if y \<ge> 0 then
        (if line_full board y
         then clear_lines_loop (clear_top_row (shift_rows_down board y)) (y + 1 - 1)
                (lines_cleared + 1)
         else clear_lines_loop board (y - 1) lines_cleared)
      else (board, lines_cleared))"
  by pat_completeness auto

lemma cells_fold_copy:
  "cells (fold (\<lambda>x b. b\<lparr>cells := (cells b)(sy := (cells b sy)(x := cells b (sy - 1) x))\<rparr>) xs b) r c =
     (if r = sy \<and> c \<in> set xs then cells b (sy - 1) c else cells b r c)"
  by (induction xs arbitrary: b) auto

lemma cells_copy_row_down:
  "cells (copy_row_down b sy) r c =
     (if r = sy \<and> 0 \<le> c \<and> c < BOARD_WIDTH then cells b (sy - 1) c else cells b r c)"
  unfolding copy_row_down_def cells_fold_copy by auto

lemma cells_shift_rows_down:
  "cells (shift_rows_down b y) r c =
     (if 1 \<le> r \<and> r \<le> y \<and> 0 \<le> c \<and> c < BOARD_WIDTH then cells b (r - 1) c else cells b r c)"
proof (induction b y arbitrary: r c rule: shift_rows_down.induct)
  case (1 board shift_y)
  show ?case
  proof (cases "shift_y > 0")
    case True
    then show ?thesis
      using "1.IH" [OF True, of r c] by (subst shift_rows_down.simps) (auto simp: cells_copy_row_down)
  next
    case False
    then show ?thesis by (subst shift_rows_down.simps) auto
  qed
qed

lemma cells_fold_clear:
  "cells (fold (\<lambda>x b. b\<lparr>cells := (cells b)(0 := (cells b 0)(x := 0))\<rparr>) xs b) r c =
     (if r = 0 \<and> c \<in> set xs then 0 else cells b r c)"
  by (induction xs arbitrary: b) auto

lemma cells_clear_top_row:
  "cells (clear_top_row b) r c =
     (if r = 0 \<and> 0 \<le> c \<and> c < BOARD_WIDTH then 0 else cells b r c)"
  unfolding clear_top_row_def cells_fold_clear by auto

lemma line_full_iff: "line_full b y = (\<forall>x. 0 \<le> x \<and> x < BOARD_WIDTH \<longrightarrow> cells b y x \<noteq> 0)"
  by (auto simp: line_full_def list_all_iff)

lemma line_full_removed:
  "line_full (clear_top_row (shift_rows_down b y)) r =
     (if r = 0 then False else if 1 \<le> r \<and> r \<le> y then line_full b (r - 1) else line_full b r)"
  by (auto simp: line_full_iff cells_clear_top_row cells_shift_rows_down BOARD_WIDTH_def)

definition full_rows_upto :: "Board \<Rightarrow> int \<Rightarrow> int set" where
  "full_rows_upto b y = {r. 0 \<le> r \<and> r \<le> y \<and> line_full b r}"

lemma finite_full_rows_upto: "finite (full_rows_upto b y)"
  by (rule finite_subset [of _ "{0..y}"]) (auto simp: full_rows_upto_def)

lemma full_rows_upto_removed:
  assumes "0 \<le> y" "line_full b y"
  shows "card (full_rows_upto (clear_top_row (shift_rows_down b y)) y) < card (full_rows_upto b y)"
proof -
  have "full_rows_upto (clear_top_row (shift_rows_down b y)) y = (\<lambda>r. r + 1) ` full_rows_upto b (y - 1)"
  proof (rule set_eqI)
    fix r
    show "r \<in> full_rows_upto (clear_top_row (shift_rows_down b y)) y
        \<longleftrightarrow> r \<in> (\<lambda>r. r + 1) ` full_rows_upto b (y - 1)"
    proof
      assume "r \<in> full_rows_upto (clear_top_row (shift_rows_down b y)) y"
      then have "1 \<le> r" "r \<le> y" "line_full b (r - 1)"
        by (auto simp: full_rows_upto_def line_full_removed split: if_splits)
      then have "r - 1 \<in> full_rows_upto b (y - 1)"
        by (simp add: full_rows_upto_def)
      then have "(r - 1) + 1 \<in> (\<lambda>r. r + 1) ` full_rows_upto b (y - 1)"
        by (rule imageI)
      then show "r \<in> (\<lambda>r. r + 1) ` full_rows_upto b (y - 1)" by simp
    next
      assume "r \<in> (\<lambda>r. r + 1) ` full_rows_upto b (y - 1)"
      then obtain q where "r = q + 1" "0 \<le> q" "q \<le> y - 1" "line_full b q"
        by (auto simp: full_rows_upto_def)
      then show "r \<in> full_rows_upto (clear_top_row (shift_rows_down b y)) y"
        by (simp add: full_rows_upto_def line_full_removed)
    qed
  qed
  then have "card (full_rows_upto (clear_top_row (shift_rows_down b y)) y) = card (full_rows_upto b (y - 1))"
    by (simp add: card_image)
  moreover have "full_rows_upto b y = insert y (full_rows_upto b (y - 1))"
    using assms by (auto simp: full_rows_upto_def)
  moreover have "y \<notin> full_rows_upto b (y - 1)"
    by (simp add: full_rows_upto_def)
  ultimately show ?thesis
    by (simp add: finite_full_rows_upto)
qed

lemma full_rows_upto_mono: "card (full_rows_upto b (y - 1)) \<le> card (full_rows_upto b y)"
  by (rule card_mono [OF finite_full_rows_upto]) (auto simp: full_rows_upto_def)

termination clear_lines_loop
proof (relation "measure (\<lambda>(b, y, l). nat (y + 1) + card (full_rows_upto b y))")
  show "wf (measure (\<lambda>(b, y, l). nat (y + 1) + card (full_rows_upto b y)))" by simp
next
  fix board :: Board and y lines_cleared :: int
  assume "0 \<le> y" "line_full board y"
  then show "((clear_top_row (shift_rows_down board y), y + 1 - 1, lines_cleared + 1), board, y, lines_cleared)
      \<in> measure (\<lambda>(b, y, l). nat (y + 1) + card (full_rows_upto b y))"
    using full_rows_upto_removed [of y board] by simp
next
  fix board :: Board and y lines_cleared :: int
  assume "0 \<le> y" "\<not> line_full board y"
  then show "((board, y - 1, lines_cleared), board, y, lines_cleared)
      \<in> measure (\<lambda>(b, y, l). nat (y + 1) + card (full_rows_upto b y))"
    using full_rows_upto_mono [of board y] by simp
qed

definition board_clear_lines :: "Board \<Rightarrow> Board \<times> int" where
  "board_clear_lines board = clear_lines_loop board (BOARD_HEIGHT - 1) 0"

declare clear_lines_loop.simps [simp del]

text \<open>
  The visible grid as a list of 20 rows of 10 cells, top row first, and the specification's
  wording of line clearing on it: a row is full when every column is non-empty; the full
  rows are removed, the rows above them move down, and as many empty rows enter at the top.
\<close>

definition board_rows :: "Board \<Rightarrow> int list list" where
  "board_rows board =
     map (\<lambda>y. map (\<lambda>x. cells board y x) [0..BOARD_WIDTH - 1]) [0..BOARD_HEIGHT - 1]"

definition row_full :: "int list \<Rightarrow> bool" where
  "row_full row = list_all (\<lambda>c. c \<noteq> 0) row"

definition empty_row :: "int list" where
  "empty_row = replicate (nat BOARD_WIDTH) 0"

definition spec_clear_full_lines :: "int list list \<Rightarrow> int list list \<times> int" where
  "spec_clear_full_lines rows =
     (let kept = filter (\<lambda>r. \<not> row_full r) rows;
          count = length rows - length kept
      in (replicate count empty_row @ kept, int count))"

definition board_is_spawn_blocked :: "Board \<Rightarrow> bool" where
  "board_is_spawn_blocked board =
     (let spawn_x = BOARD_WIDTH sdiv 2 - 1; spawn_y = 0 in
      list_ex (\<lambda>x. list_ex (\<lambda>y.
          x \<ge> 0 \<and> x < BOARD_WIDTH \<and> y \<ge> 0 \<and> y < BOARD_HEIGHT \<and> cells board y x \<noteq> 0)
        [spawn_y..spawn_y + 2 - 1]) [spawn_x..spawn_x + 2 - 1])"

section \<open>Game state machine (game.h, game.c)\<close>

text \<open>
  The struct \<open>Game\<close> is a record and every function of game.c takes the game and returns
  the new one, beside its C return value. \<open>rand()\<close> is an input: each function that can
  reach \<open>game_spawn_piece\<close> takes the number \<open>rand()\<close> would return there. The two
  \<open>double\<close> timers are real numbers; IEEE rounding is not modelled, and no property below
  depends on the value of a timer. \<open>LINE_CLEAR_SCORES[lines]\<close> has five entries and
  \<open>board_clear_lines\<close> can return up to 20 on an arbitrary board, so the read outside the
  table (undefined behaviour in C) is the error \<open>ArrayIndexOutOfBounds\<close>; the last section
  shows that no run of a game reaches it. The descent
  loop of \<open>game_hard_drop\<close> is a \<open>while\<close> loop with no bound in its text: it is a partial
  function, \<open>None\<close> standing for a loop that never ends. Its \<open>piece_y\<close> and the rows
  \<open>y + dy\<close> that \<open>board_check_collision\<close> computes are mathematical integers too, so the
  loop of the model is the loop of the program for the positions from which these sums stay
  within \<open>INT_MAX\<close>; the statement about the loop is made for those positions.
\<close>

datatype GameState =
  GAME_STATE_START_SCREEN | GAME_STATE_PLAYING | GAME_STATE_PAUSED | GAME_STATE_GAME_OVER

record Game =
  board :: Board
  state :: GameState
  current_piece :: PieceType
  current_rotation :: RotationState
  piece_x :: int
  piece_y :: int
  next_piece :: PieceType
  score :: int
  level :: int
  lines_cleared :: int
  gravity_timer :: real
  lock_delay_timer :: real
  is_on_ground :: bool

definition SPAWN_X :: int where
  "SPAWN_X = 3"

definition SPAWN_Y :: int where
  "SPAWN_Y = 0"

definition LOCK_DELAY :: real where
  "LOCK_DELAY = 0.5"

definition LINES_PER_LEVEL :: int where
  "LINES_PER_LEVEL = 10"

definition WALL_KICK_OFFSETS :: "(int \<times> int) list" where
  "WALL_KICK_OFFSETS = [(0, 0), (- 1, 0), (1, 0), (0, - 1), (- 2, 0), (2, 0)]"

definition LINE_CLEAR_SCORES :: "int list" where
  "LINE_CLEAR_SCORES = [0, 100, 300, 500, 800]"

datatype error = ArrayIndexOutOfBounds

definition game_init :: "nat \<Rightarrow> nat \<Rightarrow> Game" where
  "game_init rand1 rand2 =
     \<lparr>board = board_init, state = GAME_STATE_START_SCREEN,
      current_piece = piece_of_index (rand1 mod PIECE_COUNT), current_rotation = ROT_0,
      piece_x = SPAWN_X, piece_y = SPAWN_Y,
      next_piece = piece_of_index (rand2 mod PIECE_COUNT),
      score = 0, level = 1, lines_cleared = 0,
      gravity_timer = 0, lock_delay_timer = 0, is_on_ground = False\<rparr>"

definition game_set_starting_level :: "Game \<Rightarrow> int \<Rightarrow> Game" where
  "game_set_starting_level game level0 =
     (let lv = (if level0 < 1 then 1 else if level0 > 10 then 10 else level0);
          g1 = game\<lparr>level := lv\<rparr>;
          g2 = g1\<lparr>state := GAME_STATE_PLAYING\<rparr>
      in if board_check_collision (board g2) (current_piece g2) (current_rotation g2)
              (piece_x g2) (piece_y g2)
         then g2\<lparr>state := GAME_STATE_GAME_OVER\<rparr>
         else g2)"

definition game_spawn_piece :: "Game \<Rightarrow> nat \<Rightarrow> bool \<times> Game" where
  "game_spawn_piece game rand1 =
     (let g1 = game\<lparr>current_piece := next_piece game, current_rotation := ROT_0,
                    piece_x := SPAWN_X, piece_y := SPAWN_Y\<rparr>;
          g2 = g1\<lparr>next_piece := piece_of_index (rand1 mod PIECE_COUNT)\<rparr>;
          g3 = g2\<lparr>is_on_ground := False, lock_delay_timer := 0\<rparr>
      in if board_check_collision (board g3) (current_piece g3) (current_rotation g3)
              (piece_x g3) (piece_y g3)
         then (False, g3\<lparr>state := GAME_STATE_GAME_OVER\<rparr>)
         else (True, g3))"

definition lock_and_clear :: "Game \<Rightarrow> nat \<Rightarrow> error + Game" where
  "lock_and_clear game rand1 =
     (let locked = board_lock_piece (board game) (current_piece game) (current_rotation game)
                     (piece_x game) (piece_y game);
          (cleared, lines) = board_clear_lines locked;
          g1 = game\<lparr>board := cleared\<rparr>
      in if lines > 0 then
           (if lines < int (length LINE_CLEAR_SCORES) then
              (let g2 = g1\<lparr>lines_cleared := lines_cleared g1 + lines\<rparr>;
                   g3 = g2\<lparr>score := score g2 + LINE_CLEAR_SCORES ! nat lines * level g2\<rparr>;
                   g4 = g3\<lparr>level := 1 + (lines_cleared g3 sdiv LINES_PER_LEVEL)\<rparr>
               in Inr (snd (game_spawn_piece g4 rand1)))
            else Inl ArrayIndexOutOfBounds)
         else Inr (snd (game_spawn_piece g1 rand1)))"

definition is_grounded :: "Game \<Rightarrow> bool" where
  "is_grounded game =
     board_check_collision (board game) (current_piece game) (current_rotation game)
       (piece_x game) (piece_y game + 1)"

definition game_get_gravity_speed :: "Game \<Rightarrow> real" where
  "game_get_gravity_speed game =
     (let speed = 0.8 - (real_of_int (level game - 1) * 0.007) in
      if speed < 0.05 then 0.05 else speed)"

definition game_update :: "Game \<Rightarrow> real \<Rightarrow> nat \<Rightarrow> error + Game" where
  "game_update game delta_time rand1 =
     (if state game \<noteq> GAME_STATE_PLAYING then Inr game
      else
        let g1 = game\<lparr>gravity_timer := gravity_timer game + delta_time\<rparr>;
            gravity_speed = game_get_gravity_speed g1;
            g2 = (if gravity_timer g1 \<ge> gravity_speed then
                    (let g = g1\<lparr>gravity_timer := 0\<rparr> in
                     if \<not> board_check_collision (board g) (current_piece g) (current_rotation g)
                            (piece_x g) (piece_y g + 1)
                     then g\<lparr>piece_y := piece_y g + 1, is_on_ground := False,
                            lock_delay_timer := 0\<rparr>
                     else g\<lparr>is_on_ground := True\<rparr>)
                  else g1)
        in if is_on_ground g2 \<or> is_grounded g2 then
             (let g3 = g2\<lparr>is_on_ground := True,
                           lock_delay_timer := lock_delay_timer g2 + delta_time\<rparr>
              in if lock_delay_timer g3 \<ge> LOCK_DELAY then lock_and_clear g3 rand1
                 else Inr g3)
           else Inr (g2\<lparr>lock_delay_timer := 0\<rparr>))"

definition game_move_left :: "Game \<Rightarrow> bool \<times> Game" where
  "game_move_left game =
     (if state game \<noteq> GAME_STATE_PLAYING then (False, game)
      else
        let new_x = piece_x game - 1 in
        if \<not> board_check_collision (board game) (current_piece game) (current_rotation game)
               new_x (piece_y game)
        then (let g1 = game\<lparr>piece_x := new_x\<rparr> in
              (True, if \<not> is_grounded g1
                     then g1\<lparr>is_on_ground := False, lock_delay_timer := 0\<rparr> else g1))
        else (False, game))"

definition game_move_right :: "Game \<Rightarrow> bool \<times> Game" where
  "game_move_right game =
     (if state game \<noteq> GAME_STATE_PLAYING then (False, game)
      else
        let new_x = piece_x game + 1 in
        if \<not> board_check_collision (board game) (current_piece game) (current_rotation game)
               new_x (piece_y game)
        then (let g1 = game\<lparr>piece_x := new_x\<rparr> in
              (True, if \<not> is_grounded g1
                     then g1\<lparr>is_on_ground := False, lock_delay_timer := 0\<rparr> else g1))
        else (False, game))"

definition game_move_down :: "Game \<Rightarrow> bool \<times> Game" where
  "game_move_down game =
     (if state game \<noteq> GAME_STATE_PLAYING then (False, game)
      else
        let new_y = piece_y game + 1 in
        if \<not> board_check_collision (board game) (current_piece game) (current_rotation game)
               (piece_x game) new_y
        then (True, game\<lparr>piece_y := new_y, score := score game + 1, is_on_ground := False,
                         lock_delay_timer := 0\<rparr>)
        else (False, game))"

fun rotate_kicks :: "Game \<Rightarrow> RotationState \<Rightarrow> (int \<times> int) list \<Rightarrow> bool \<times> Game" where
  "rotate_kicks game new_rotation [] = (False, game)"
| "rotate_kicks game new_rotation (k # rest) =
     (let test_x = piece_x game + fst k; test_y = piece_y game + snd k in
      if \<not> board_check_collision (board game) (current_piece game) new_rotation test_x test_y
      then (let g1 = game\<lparr>current_rotation := new_rotation, piece_x := test_x,
                          piece_y := test_y\<rparr>
            in (True, if \<not> is_grounded g1
                      then g1\<lparr>is_on_ground := False, lock_delay_timer := 0\<rparr> else g1))
      else rotate_kicks game new_rotation rest)"

definition game_rotate :: "Game \<Rightarrow> bool \<times> Game" where
  "game_rotate game =
     (if state game \<noteq> GAME_STATE_PLAYING then (False, game)
      else rotate_kicks game (piece_rotate_cw (current_rotation game)) WALL_KICK_OFFSETS)"

partial_function (option) hard_drop_loop :: "Game \<Rightarrow> int \<Rightarrow> (Game \<times> int) option" where
  "hard_drop_loop game drop_distance =
     (if \<not> board_check_collision (board game) (current_piece game) (current_rotation game)
            (piece_x game) (piece_y game + 1)
      then hard_drop_loop (game\<lparr>piece_y := piece_y game + 1\<rparr>) (drop_distance + 1)
      else Some (game, drop_distance))"

definition game_hard_drop :: "Game \<Rightarrow> nat \<Rightarrow> (error + Game) option" where
  "game_hard_drop game rand1 =
     (if state game \<noteq> GAME_STATE_PLAYING then Some (Inr game)
      else case hard_drop_loop game 0 of
             None \<Rightarrow> None
           | Some (g1, drop_distance) \<Rightarrow>
               Some (lock_and_clear (g1\<lparr>score := score g1 + drop_distance * 2\<rparr>) rand1))"

definition game_toggle_pause :: "Game \<Rightarrow> Game" where
  "game_toggle_pause game =
     (if state game = GAME_STATE_PLAYING then game\<lparr>state := GAME_STATE_PAUSED\<rparr>
      else if state game = GAME_STATE_PAUSED then game\<lparr>state := GAME_STATE_PLAYING\<rparr>
      else game)"

definition game_is_over :: "Game \<Rightarrow> bool" where
  "game_is_over game = (state game = GAME_STATE_GAME_OVER)"

definition game_is_paused :: "Game \<Rightarrow> bool" where
  "game_is_paused game = (state game = GAME_STATE_PAUSED)"

definition game_get_level :: "Game \<Rightarrow> int" where
  "game_get_level game = level game"

section \<open>Runs, reachable boards and the specification's tables\<close>

text \<open>The boards a game can hold: \<open>board_init\<close> makes the first one, and only
  \<open>board_lock_piece\<close> and \<open>board_clear_lines\<close> write to a board.\<close>

inductive board_reachable :: "Board \<Rightarrow> bool" where
  init: "board_reachable board_init"
| lock: "board_reachable b \<Longrightarrow> board_reachable (board_lock_piece b type rotation x y)"
| clear: "board_reachable b \<Longrightarrow> board_reachable (fst (board_clear_lines b))"

definition cells_in_domain :: "Board \<Rightarrow> bool" where
  "cells_in_domain b = (\<forall>y x. 0 \<le> cells b y x \<and> cells b y x \<le> 7)"

text \<open>No row of the visible grid is full: the state of the board between two locks.\<close>

definition no_full_row :: "Board \<Rightarrow> bool" where
  "no_full_row b = list_all (\<lambda>y. \<not> line_full b y) [0..BOARD_HEIGHT - 1]"

text \<open>The number of rows that \<open>lock_and_clear\<close> clears: the result of \<open>board_clear_lines\<close>
  on the board with the current piece locked.\<close>

definition locked_lines :: "Game \<Rightarrow> int" where
  "locked_lines g =
     snd (board_clear_lines (board_lock_piece (board g) (current_piece g) (current_rotation g)
       (piece_x g) (piece_y g)))"

text \<open>The specification's table of base scores, \<open>{1:100, 2:300, 3:500, 4:800}\<close>.\<close>

definition base_score :: "int \<Rightarrow> int" where
  "base_score count =
     (if count = 1 then 100 else if count = 2 then 300 else if count = 3 then 500
      else if count = 4 then 800 else 0)"

text \<open>The candidate positions of the specification's rotation: no shift, left 1, right 1,
  up 1, left 2, right 2, relative to the current position.\<close>

definition spec_rotate_candidates :: "Game \<Rightarrow> (int \<times> int) list" where
  "spec_rotate_candidates g =
     map (\<lambda>(dx, dy). (piece_x g + dx, piece_y g + dy))
       [(0, 0), (- 1, 0), (1, 0), (0, - 1), (- 2, 0), (2, 0)]"

text \<open>The top-centre 2 by 2 spawn footprint that \<open>board_is_spawn_blocked\<close> scans, as
  (column, row) pairs in scan order.\<close>

definition spawn_footprint :: "(int \<times> int) list" where
  "spawn_footprint = [(4, 0), (4, 1), (5, 0), (5, 1)]"

text \<open>Repeated calls of \<open>game_update\<close>, one per pair of a delta time and a \<open>rand()\<close> value;
  an error ends the run.\<close>

fun game_updates :: "Game \<Rightarrow> (real \<times> nat) list \<Rightarrow> error + Game" where
  "game_updates g [] = Inr g"
| "game_updates g (c # calls) =
     (case game_update g (fst c) (snd c) of
        Inl e \<Rightarrow> Inl e
      | Inr g' \<Rightarrow> game_updates g' calls)"

text \<open>One call of the driver into a running game: an action of the player or the update of
  a frame. A call of \<open>game_update\<close> or \<open>game_hard_drop\<close> is a step when it returns a game.\<close>

inductive game_step :: "Game \<Rightarrow> Game \<Rightarrow> bool" where
  move_left: "game_step g (snd (game_move_left g))"
| move_right: "game_step g (snd (game_move_right g))"
| move_down: "game_step g (snd (game_move_down g))"
| rotate: "game_step g (snd (game_rotate g))"
| hard_drop: "game_hard_drop g rnd = Some (Inr g') \<Longrightarrow> game_step g g'"
| toggle_pause: "game_step g (game_toggle_pause g)"
| update: "game_update g delta_time rnd = Inr g' \<Longrightarrow> game_step g g'"

text \<open>What a step does to the level, given the level and the line total before it: it
  leaves both as they are, or the line total grows and the level is recomputed from it.\<close>

definition stats_progress :: "int \<Rightarrow> int \<Rightarrow> Game \<Rightarrow> bool" where
  "stats_progress level0 lines0 g' =
     (level g' = level0 \<and> lines_cleared g' = lines0 \<or>
      lines0 < lines_cleared g' \<and> level g' = 1 + lines_cleared g' sdiv LINES_PER_LEVEL)"

section \<open>Example states\<close>

text \<open>A board whose rows 5 and 10 are full; every other row holds one block, in column 0.\<close>

definition example_board_5_10 :: Board where
  "example_board_5_10 =
     \<lparr>cells = (\<lambda>y x. if y = 5 \<or> y = 10 then 1 else if x = 0 then y mod 7 + 1 else 0)\<rparr>"

text \<open>A game at level 3 with 26 lines cleared: rows 16..19 are full but for column 9, and a
  vertical I piece stands in that column.\<close>

definition example_game_tetris :: Game where
  "example_game_tetris =
     \<lparr>board = \<lparr>cells = (\<lambda>y x. if 16 \<le> y \<and> y \<le> 19 \<and> 0 \<le> x \<and> x \<le> 8 then 2 else 0)\<rparr>,
      state = GAME_STATE_PLAYING,
      current_piece = PIECE_I, current_rotation = ROT_90, piece_x = 7, piece_y = 16,
      next_piece = PIECE_O, score = 1000, level = 3, lines_cleared = 26,
      gravity_timer = 0, lock_delay_timer = 0, is_on_ground = True\<rparr>"

text \<open>A game at level 10 with 99 lines cleared: row 19 is full from column 4 on, and a
  horizontal I piece is at the spawn row above the gap.\<close>

definition example_game_99 :: Game where
  "example_game_99 =
     \<lparr>board = \<lparr>cells = (\<lambda>y x. if y = 19 \<and> 4 \<le> x \<and> x \<le> 9 then 2 else 0)\<rparr>,
      state = GAME_STATE_PLAYING,
      current_piece = PIECE_I, current_rotation = ROT_0, piece_x = 0, piece_y = 0,
      next_piece = PIECE_O, score = 12000, level = 10, lines_cleared = 99,
      gravity_timer = 0, lock_delay_timer = 0, is_on_ground = False\<rparr>"

text \<open>A game with the piece T upright against the left wall, where the wall blocks the
  rotation in place and the kick one column to the right succeeds; and a game with an
  upright I piece at the bottom of a well one column wide, where no kick succeeds.\<close>

definition example_game_wall :: Game where
  "example_game_wall =
     \<lparr>board = board_init, state = GAME_STATE_PLAYING,
      current_piece = PIECE_T, current_rotation = ROT_90, piece_x = - 1, piece_y = 5,
      next_piece = PIECE_O, score = 0, level = 1, lines_cleared = 0,
      gravity_timer = 0, lock_delay_timer = 0, is_on_ground = False\<rparr>"

definition example_game_stuck :: Game where
  "example_game_stuck =
     \<lparr>board = \<lparr>cells = (\<lambda>y x. if 10 \<le> y \<and> y \<le> 19 \<and> 1 \<le> x \<and> x \<le> 9 then 4 else 0)\<rparr>,
      state = GAME_STATE_PLAYING,
      current_piece = PIECE_I, current_rotation = ROT_90, piece_x = - 2, piece_y = 16,
      next_piece = PIECE_O, score = 0, level = 1, lines_cleared = 0,
      gravity_timer = 0, lock_delay_timer = 0, is_on_ground = True\<rparr>"

text \<open>A game whose board holds blocks on exactly the spawn footprint.\<close>

definition example_game_blocked :: Game where
  "example_game_blocked =
     \<lparr>board = \<lparr>cells = (\<lambda>y x. if (x = 4 \<or> x = 5) \<and> (y = 0 \<or> y = 1) then 5 else 0)\<rparr>,
      state = GAME_STATE_PLAYING,
      current_piece = PIECE_S, current_rotation = ROT_0, piece_x = 3, piece_y = 17,
      next_piece = PIECE_J, score = 40, level = 1, lines_cleared = 0,
      gravity_timer = 0, lock_delay_timer = 0, is_on_ground = True\<rparr>"

text \<open>A paused game with both timers running.\<close>

definition example_game_paused :: Game where
  "example_game_paused =
     \<lparr>board = board_init, state = GAME_STATE_PAUSED,
      current_piece = PIECE_Z, current_rotation = ROT_0, piece_x = 3, piece_y = 18,
      next_piece = PIECE_L, score = 7, level = 1, lines_cleared = 0,
      gravity_timer = 0.3, lock_delay_timer = 0.2, is_on_ground = True\<rparr>"

section \<open>Collision\<close>

lemma check_blocks_iff:
  "check_blocks b x y cs =
     (\<exists>c \<in> set cs. x + fst c < 0 \<or> x + fst c \<ge> BOARD_WIDTH \<or> y + snd c \<ge> BOARD_HEIGHT \<or>
        (0 \<le> y + snd c \<and> cells b (y + snd c) (x + fst c) \<noteq> 0))"
  by (induction cs) (auto simp: Let_def)

lemma length_piece_get_shape: "length (piece_get_shape type rotation) = 4"
  by (cases type; cases rotation) (simp_all add: piece_get_shape_def)

text \<open>
  C1. \<open>board_check_collision\<close> is true exactly when one of the four absolute cells of the
  piece is outside the columns \<open>[0, BOARD_WIDTH)\<close>, or has a row \<open>\<ge> BOARD_HEIGHT\<close>, or lies
  on the board (row in \<open>[0, BOARD_HEIGHT)\<close>) on a non-empty cell. A cell with a negative
  row can only collide through its column. The piece has exactly four cells, and a piece
  with all of them inside the board and on empty cells does not collide.
\<close>

theorem board_check_collision_iff:
  "length (piece_cells type rotation x y) = 4 \<and>
   board_check_collision b type rotation x y =
     (\<exists>(cx, cy) \<in> set (piece_cells type rotation x y).
        cx < 0 \<or> cx \<ge> BOARD_WIDTH \<or> cy \<ge> BOARD_HEIGHT \<or>
        (0 \<le> cy \<and> cy < BOARD_HEIGHT \<and> 0 \<le> cx \<and> cx < BOARD_WIDTH \<and> board_get_cell b cx cy \<noteq> 0)) \<and>
   ((\<forall>(cx, cy) \<in> set (piece_cells type rotation x y).
        0 \<le> cx \<and> cx < 10 \<and> 0 \<le> cy \<and> cy < 20 \<and> board_get_cell b cx cy = 0)
     \<longrightarrow> \<not> board_check_collision b type rotation x y)"
proof -
  let ?cs = "piece_get_shape type rotation"
  let ?B = "\<lambda>(cx, cy). cx < 0 \<or> cx \<ge> BOARD_WIDTH \<or> cy \<ge> BOARD_HEIGHT \<or>
        (0 \<le> cy \<and> cy < BOARD_HEIGHT \<and> 0 \<le> cx \<and> cx < BOARD_WIDTH \<and> board_get_cell b cx cy \<noteq> 0)"
  have len: "length (piece_cells type rotation x y) = 4"
    by (simp add: piece_cells_def length_piece_get_shape)
  have cell: "(x + fst c < 0 \<or> x + fst c \<ge> BOARD_WIDTH \<or> y + snd c \<ge> BOARD_HEIGHT \<or>
        (0 \<le> y + snd c \<and> cells b (y + snd c) (x + fst c) \<noteq> 0)) = ?B (x + fst c, y + snd c)" for c
    by (auto simp: board_get_cell_def)
  have "board_check_collision b type rotation x y = (\<exists>c \<in> set ?cs. ?B (x + fst c, y + snd c))"
    unfolding board_check_collision_def check_blocks_iff cell ..
  also have "\<dots> = (\<exists>p \<in> set (piece_cells type rotation x y). ?B p)"
    by (simp add: piece_cells_def)
  finally have iff: "board_check_collision b type rotation x y =
      (\<exists>p \<in> set (piece_cells type rotation x y). ?B p)" .
  have free: "(\<forall>(cx, cy) \<in> set (piece_cells type rotation x y).
        0 \<le> cx \<and> cx < 10 \<and> 0 \<le> cy \<and> cy < 20 \<and> board_get_cell b cx cy = 0)
     \<longrightarrow> \<not> board_check_collision b type rotation x y"
    unfolding iff by (fastforce simp: BOARD_WIDTH_def BOARD_HEIGHT_def)
  from len iff free show ?thesis by blast
qed

theorem board_check_collision_iff_witness:
  "piece_cells PIECE_T ROT_0 3 0 = [(4, 0), (3, 1), (4, 1), (5, 1)] \<and>
   board_get_cell board_init 4 0 = 0 \<and> board_get_cell board_init 3 1 = 0 \<and>
   board_get_cell board_init 4 1 = 0 \<and> board_get_cell board_init 5 1 = 0 \<and>
   \<not> board_check_collision board_init PIECE_T ROT_0 3 0"
proof -
  have cs: "piece_cells PIECE_T ROT_0 3 0 = [(4, 0), (3, 1), (4, 1), (5, 1)]"
    by (simp add: piece_cells_def piece_get_shape_def)
  have e: "board_get_cell board_init cx cy = 0" for cx cy
    by (simp add: board_get_cell_def board_init_def)
  have h: "\<forall>(cx, cy) \<in> set (piece_cells PIECE_T ROT_0 3 0).
      0 \<le> cx \<and> cx < 10 \<and> 0 \<le> cy \<and> cy < 20 \<and> board_get_cell board_init cx cy = 0"
    unfolding cs by (simp add: e)
  have c: "\<not> board_check_collision board_init PIECE_T ROT_0 3 0"
    using board_check_collision_iff [of PIECE_T ROT_0 3 0 board_init] h by blast
  from cs e c show ?thesis by blast
qed

section \<open>Line clearing\<close>

lemma length_board_rows: "length (board_rows b) = 20"
  by (simp add: board_rows_def BOARD_HEIGHT_def)

lemma nth_board_rows:
  "i < 20 \<Longrightarrow> board_rows b ! i = map (\<lambda>x. cells b (int i) x) [0..BOARD_WIDTH - 1]"
  unfolding board_rows_def by (simp add: BOARD_HEIGHT_def del: upto_rec_numeral)

lemma row_full_nth_board_rows: "i < 20 \<Longrightarrow> row_full (board_rows b ! i) = line_full b (int i)"
  by (simp add: nth_board_rows row_full_def line_full_def list_all_iff del: upto_rec_numeral)

lemma not_row_full_empty_row: "\<not> row_full empty_row"
  by (simp add: row_full_def empty_row_def BOARD_WIDTH_def list_all_iff)

lemma empty_row_eq: "empty_row = map (\<lambda>x. 0) [0..BOARD_WIDTH - 1]"
  by (simp add: empty_row_def map_replicate_const BOARD_WIDTH_def del: upto_rec_numeral)

lemma board_rows_removed:
  assumes "0 \<le> y" "y < 20"
  shows "board_rows (clear_top_row (shift_rows_down b y)) =
           empty_row # take (nat y) (board_rows b) @ drop (Suc (nat y)) (board_rows b)"
proof (rule nth_equalityI)
  show "length (board_rows (clear_top_row (shift_rows_down b y))) =
        length (empty_row # take (nat y) (board_rows b) @ drop (Suc (nat y)) (board_rows b))"
    using assms by (simp add: length_board_rows)
next
  fix i assume "i < length (board_rows (clear_top_row (shift_rows_down b y)))"
  then have i: "i < 20" by (simp add: length_board_rows)
  let ?b' = "clear_top_row (shift_rows_down b y)"
  have row: "board_rows ?b' ! i =
      (if i = 0 then empty_row else if int i \<le> y then board_rows b ! (i - 1) else board_rows b ! i)"
  proof -
    have "map (\<lambda>x. cells ?b' (int i) x) [0..BOARD_WIDTH - 1] =
        (if i = 0 then map (\<lambda>x. 0) [0..BOARD_WIDTH - 1]
         else if int i \<le> y then map (\<lambda>x. cells b (int (i - 1)) x) [0..BOARD_WIDTH - 1]
         else map (\<lambda>x. cells b (int i) x) [0..BOARD_WIDTH - 1])"
      by (auto simp: cells_clear_top_row cells_shift_rows_down of_nat_diff simp del: upto_rec_numeral)
    then show ?thesis
      using i by (simp add: nth_board_rows empty_row_eq del: upto_rec_numeral)
  qed
  have rhs: "(empty_row # take (nat y) (board_rows b) @ drop (Suc (nat y)) (board_rows b)) ! i =
      (if i = 0 then empty_row else if int i \<le> y then board_rows b ! (i - 1) else board_rows b ! i)"
    using assms i by (cases i) (auto simp: nth_append length_board_rows)
  show "board_rows ?b' ! i =
      (empty_row # take (nat y) (board_rows b) @ drop (Suc (nat y)) (board_rows b)) ! i"
    unfolding row rhs ..
qed

lemma clear_lines_loop_rows:
  "- 1 \<le> y \<Longrightarrow> y < 20 \<Longrightarrow>
   board_rows (fst (clear_lines_loop b y l)) =
     replicate (length (filter row_full (take (nat (y + 1)) (board_rows b)))) empty_row @
     filter (\<lambda>r. \<not> row_full r) (take (nat (y + 1)) (board_rows b)) @
     drop (nat (y + 1)) (board_rows b) \<and>
   snd (clear_lines_loop b y l) =
     l + int (length (filter row_full (take (nat (y + 1)) (board_rows b))))"
proof (induction b y l rule: clear_lines_loop.induct)
  case (1 b y lines_cleared)
  let ?R = "board_rows b"
  show ?case
  proof (cases "y \<ge> 0")
    case False
    with "1.prems" have "y = - 1" by simp
    then show ?thesis by (subst (1 2) clear_lines_loop.simps) simp
  next
    case True
    then have ny: "nat (y + 1) = Suc (nat y)" by simp
    have lt: "nat y < length ?R" using True "1.prems" by (simp add: length_board_rows)
    have tk: "take (Suc (nat y)) ?R = take (nat y) ?R @ [?R ! nat y]"
      using lt by (rule take_Suc_conv_app_nth)
    have full_eq: "row_full (?R ! nat y) = line_full b y"
      using True "1.prems" row_full_nth_board_rows [of "nat y" b] by simp
    show ?thesis
    proof (cases "line_full b y")
      case full: True
      let ?b' = "clear_top_row (shift_rows_down b y)"
      have R': "board_rows ?b' = empty_row # take (nat y) ?R @ drop (Suc (nat y)) ?R"
        using True "1.prems" by (intro board_rows_removed) simp_all
      have tk': "take (Suc (nat y)) (board_rows ?b') = empty_row # take (nat y) ?R"
        using lt by (simp add: R')
      have dr': "drop (Suc (nat y)) (board_rows ?b') = drop (Suc (nat y)) ?R"
        using lt by (simp add: R')
      have IH: "board_rows (fst (clear_lines_loop ?b' y (lines_cleared + 1))) =
          replicate (length (filter row_full (take (nat y) ?R))) empty_row @
          empty_row # filter (\<lambda>r. \<not> row_full r) (take (nat y) ?R) @ drop (Suc (nat y)) ?R \<and>
        snd (clear_lines_loop ?b' y (lines_cleared + 1)) =
          lines_cleared + 1 + int (length (filter row_full (take (nat y) ?R)))"
        using "1.IH"(1) [OF True full] "1.prems" True
        by (simp add: ny tk' dr' not_row_full_empty_row)
      have step: "clear_lines_loop b y lines_cleared = clear_lines_loop ?b' y (lines_cleared + 1)"
        using True full by (subst clear_lines_loop.simps) simp
      show ?thesis
        unfolding step ny tk using IH full full_eq
        by (simp add: replicate_app_Cons_same)
    next
      case nfull: False
      have IH: "board_rows (fst (clear_lines_loop b (y - 1) lines_cleared)) =
          replicate (length (filter row_full (take (nat y) ?R))) empty_row @
          filter (\<lambda>r. \<not> row_full r) (take (nat y) ?R) @ drop (nat y) ?R \<and>
        snd (clear_lines_loop b (y - 1) lines_cleared) =
          lines_cleared + int (length (filter row_full (take (nat y) ?R)))"
        using "1.IH"(2) [OF True nfull] "1.prems" True by simp
      have dr: "drop (nat y) ?R = ?R ! nat y # drop (Suc (nat y)) ?R"
        using lt by (rule Cons_nth_drop_Suc [symmetric])
      have step: "clear_lines_loop b y lines_cleared = clear_lines_loop b (y - 1) lines_cleared"
        using True nfull by (subst clear_lines_loop.simps) simp
      show ?thesis
        unfolding step ny tk using IH nfull full_eq
        by (simp add: dr)
    qed
  qed
qed

lemma board_clear_lines_refines:
  "board_rows (fst (board_clear_lines b)) = fst (spec_clear_full_lines (board_rows b)) \<and>
   snd (board_clear_lines b) = snd (spec_clear_full_lines (board_rows b))"
proof -
  have len: "20 - length (filter (\<lambda>r. \<not> row_full r) (board_rows b)) =
      length (filter row_full (board_rows b))"
    using sum_length_filter_compl [of row_full "board_rows b"] length_board_rows [of b] by simp
  show ?thesis
    using clear_lines_loop_rows [of 19 b 0]
    by (simp add: board_clear_lines_def spec_clear_full_lines_def Let_def len
        BOARD_HEIGHT_def length_board_rows)
qed

lemma board_rows_enum:
  "board_rows b = map (\<lambda>i. board_rows b ! i) [0..<20]"
  using map_nth [of "board_rows b"] by (simp add: length_board_rows del: upt_rec_numeral)

lemma upt20: "[0..<20] = [0,1,2,3,4,5,6,7,8,9,10,11,12,13,14,15,16,17,18,19::nat]"
  by code_simp

lemma exactly_rows_5_10:
  assumes "\<forall>i<20. row_full (board_rows b ! i) = (i = 5 \<or> i = 10)"
  shows "spec_clear_full_lines (board_rows b) =
     ([empty_row, empty_row,
       board_rows b ! 0, board_rows b ! 1, board_rows b ! 2, board_rows b ! 3, board_rows b ! 4,
       board_rows b ! 6, board_rows b ! 7, board_rows b ! 8, board_rows b ! 9,
       board_rows b ! 11, board_rows b ! 12, board_rows b ! 13, board_rows b ! 14,
       board_rows b ! 15, board_rows b ! 16, board_rows b ! 17, board_rows b ! 18,
       board_rows b ! 19], 2)"
proof -
  have rf: "row_full (board_rows b ! i) = (i = 5 \<or> i = 10)" if "i < 20" for i
    using assms that by blast
  have kept: "filter (\<lambda>r. \<not> row_full r) (board_rows b) =
      [board_rows b ! 0, board_rows b ! 1, board_rows b ! 2, board_rows b ! 3, board_rows b ! 4,
       board_rows b ! 6, board_rows b ! 7, board_rows b ! 8, board_rows b ! 9,
       board_rows b ! 11, board_rows b ! 12, board_rows b ! 13, board_rows b ! 14,
       board_rows b ! 15, board_rows b ! 16, board_rows b ! 17, board_rows b ! 18,
       board_rows b ! 19]"
    by (subst board_rows_enum) (simp add: upt20 rf)
  show ?thesis
    unfolding spec_clear_full_lines_def Let_def kept
    by (simp add: length_board_rows numeral_2_eq_2)
qed

text \<open>
  C2. \<open>board_clear_lines\<close> refines the specification's line clearing on the visible grid:
  it removes exactly the rows that are full in the pre-state (a row is full when each of its
  10 columns is non-empty), keeps the other rows in their order, so each one moves down by
  the number of full rows below it, puts as many empty rows at the top, and returns the
  number of full rows. With exactly rows 5 and 10 full it returns 2; rows 0..4 move down by
  two, rows 6..9 by one, rows 11..19 stay, and the two top rows are empty.
\<close>

theorem board_clear_lines_correct:
  "board_rows (fst (board_clear_lines b)) = fst (spec_clear_full_lines (board_rows b)) \<and>
   snd (board_clear_lines b) = snd (spec_clear_full_lines (board_rows b)) \<and>
   snd (board_clear_lines b) = int (length (filter row_full (board_rows b))) \<and>
   (\<forall>i<20. row_full (board_rows b ! i) = (\<forall>x. 0 \<le> x \<and> x < 10 \<longrightarrow> board_get_cell b x (int i) \<noteq> 0)) \<and>
   ((\<forall>i<20. row_full (board_rows b ! i) = (i = 5 \<or> i = 10)) \<longrightarrow>
      snd (board_clear_lines b) = 2 \<and>
      board_rows (fst (board_clear_lines b)) = [empty_row, empty_row,
       board_rows b ! 0, board_rows b ! 1, board_rows b ! 2, board_rows b ! 3, board_rows b ! 4,
       board_rows b ! 6, board_rows b ! 7, board_rows b ! 8, board_rows b ! 9,
       board_rows b ! 11, board_rows b ! 12, board_rows b ! 13, board_rows b ! 14,
       board_rows b ! 15, board_rows b ! 16, board_rows b ! 17, board_rows b ! 18,
       board_rows b ! 19])"
proof -
  note r = board_clear_lines_refines [of b]
  have count: "snd (board_clear_lines b) = int (length (filter row_full (board_rows b)))"
    using r sum_length_filter_compl [of row_full "board_rows b"]
    by (simp add: spec_clear_full_lines_def Let_def)
  have full: "\<forall>i<20. row_full (board_rows b ! i) =
      (\<forall>x. 0 \<le> x \<and> x < 10 \<longrightarrow> board_get_cell b x (int i) \<noteq> 0)"
    by (auto simp: row_full_nth_board_rows line_full_iff board_get_cell_def
        BOARD_WIDTH_def BOARD_HEIGHT_def)
  have inst: "(\<forall>i<20. row_full (board_rows b ! i) = (i = 5 \<or> i = 10)) \<longrightarrow>
      snd (board_clear_lines b) = 2 \<and>
      board_rows (fst (board_clear_lines b)) = [empty_row, empty_row,
       board_rows b ! 0, board_rows b ! 1, board_rows b ! 2, board_rows b ! 3, board_rows b ! 4,
       board_rows b ! 6, board_rows b ! 7, board_rows b ! 8, board_rows b ! 9,
       board_rows b ! 11, board_rows b ! 12, board_rows b ! 13, board_rows b ! 14,
       board_rows b ! 15, board_rows b ! 16, board_rows b ! 17, board_rows b ! 18,
       board_rows b ! 19]"
    using r by (simp add: exactly_rows_5_10)
  from r count full inst show ?thesis by blast
qed

lemma upto_0_9: "[0..9] = [0, 1, 2, 3, 4, 5, 6, 7, 8, 9]"
  by code_simp

lemma upto_0_19:
  "[0..19] = [0, 1, 2, 3, 4, 5, 6, 7, 8, 9, 10, 11, 12, 13, 14, 15, 16, 17, 18, 19]"
  by code_simp

lemma all_less_20: "(\<forall>i<20. P i) = list_all P [0..<20]"
  by (auto simp: list_all_iff)

theorem board_clear_lines_correct_witness:
  "map row_full (board_rows example_board_5_10) =
     [False, False, False, False, False, True, False, False, False, False,
      True, False, False, False, False, False, False, False, False, False] \<and>
   snd (board_clear_lines example_board_5_10) = 2 \<and>
   map hd (board_rows example_board_5_10) =
     [1, 2, 3, 4, 5, 1, 7, 1, 2, 3, 1, 5, 6, 7, 1, 2, 3, 4, 5, 6] \<and>
   map hd (board_rows (fst (board_clear_lines example_board_5_10))) =
     [0, 0, 1, 2, 3, 4, 5, 7, 1, 2, 3, 5, 6, 7, 1, 2, 3, 4, 5, 6]"
proof -
  let ?b = example_board_5_10
  have rows: "board_rows ?b =
     [[1, 0, 0, 0, 0, 0, 0, 0, 0, 0], [2, 0, 0, 0, 0, 0, 0, 0, 0, 0],
      [3, 0, 0, 0, 0, 0, 0, 0, 0, 0], [4, 0, 0, 0, 0, 0, 0, 0, 0, 0],
      [5, 0, 0, 0, 0, 0, 0, 0, 0, 0], [1, 1, 1, 1, 1, 1, 1, 1, 1, 1],
      [7, 0, 0, 0, 0, 0, 0, 0, 0, 0], [1, 0, 0, 0, 0, 0, 0, 0, 0, 0],
      [2, 0, 0, 0, 0, 0, 0, 0, 0, 0], [3, 0, 0, 0, 0, 0, 0, 0, 0, 0],
      [1, 1, 1, 1, 1, 1, 1, 1, 1, 1], [5, 0, 0, 0, 0, 0, 0, 0, 0, 0],
      [6, 0, 0, 0, 0, 0, 0, 0, 0, 0], [7, 0, 0, 0, 0, 0, 0, 0, 0, 0],
      [1, 0, 0, 0, 0, 0, 0, 0, 0, 0], [2, 0, 0, 0, 0, 0, 0, 0, 0, 0],
      [3, 0, 0, 0, 0, 0, 0, 0, 0, 0], [4, 0, 0, 0, 0, 0, 0, 0, 0, 0],
      [5, 0, 0, 0, 0, 0, 0, 0, 0, 0], [6, 0, 0, 0, 0, 0, 0, 0, 0, 0]]"
    by (simp add: board_rows_def example_board_5_10_def BOARD_WIDTH_def BOARD_HEIGHT_def
        upto_0_9 upto_0_19)
  have h: "\<forall>i<20. row_full (board_rows ?b ! i) = (i = 5 \<or> i = 10)"
    unfolding all_less_20 upt20 rows by (simp add: row_full_def)
  have c: "snd (board_clear_lines ?b) = 2 \<and>
      board_rows (fst (board_clear_lines ?b)) = [empty_row, empty_row,
       board_rows ?b ! 0, board_rows ?b ! 1, board_rows ?b ! 2, board_rows ?b ! 3, board_rows ?b ! 4,
       board_rows ?b ! 6, board_rows ?b ! 7, board_rows ?b ! 8, board_rows ?b ! 9,
       board_rows ?b ! 11, board_rows ?b ! 12, board_rows ?b ! 13, board_rows ?b ! 14,
       board_rows ?b ! 15, board_rows ?b ! 16, board_rows ?b ! 17, board_rows ?b ! 18,
       board_rows ?b ! 19]"
    using board_clear_lines_correct [of ?b] h by blast
  have e: "hd empty_row = 0"
    by (simp add: empty_row_def BOARD_WIDTH_def)
  show ?thesis
    using c by (simp add: rows row_full_def e)
qed

section \<open>Locking\<close>

lemma cells_lock_blocks:
  "cells (lock_blocks b color x y cs) r c =
     (if \<exists>k \<in> set cs. x + fst k = c \<and> y + snd k = r \<and>
           0 \<le> c \<and> c < BOARD_WIDTH \<and> 0 \<le> r \<and> r < BOARD_HEIGHT
      then color else cells b r c)"
proof (induction cs arbitrary: b)
  case Nil
  show ?case by simp
next
  case (Cons k ks)
  show ?case
    by (simp add: Cons.IH Let_def) blast
qed

lemma cells_board_lock_piece:
  "cells (board_lock_piece b type rotation x y) r c =
     (if (c, r) \<in> set (piece_cells type rotation x y) \<and>
           0 \<le> c \<and> c < BOARD_WIDTH \<and> 0 \<le> r \<and> r < BOARD_HEIGHT
      then piece_get_color type else cells b r c)"
  unfolding board_lock_piece_def cells_lock_blocks piece_cells_def
  by (auto simp: image_iff)

lemma piece_get_color_range: "1 \<le> piece_get_color type \<and> piece_get_color type \<le> 7"
  by (cases type) (simp_all add: piece_get_color_def)

text \<open>
  C7. After \<open>board_lock_piece\<close>, each absolute cell of the piece that lies on the board holds
  the colour of the piece, and \<open>board_get_cell\<close> returns it; a cell of the piece with a
  negative row is skipped: it is no cell of the board, \<open>board_get_cell\<close> returns 0 there, and
  the only cells whose content differs from before are cells of the piece on the board; every
  cell that is not one of the four absolute cells of the piece is as before.
\<close>

theorem board_lock_piece_cells:
  "(\<forall>(cx, cy) \<in> set (piece_cells type rotation x y).
      0 \<le> cx \<and> cx < 10 \<and> 0 \<le> cy \<and> cy < 20 \<longrightarrow>
      cells (board_lock_piece b type rotation x y) cy cx = piece_get_color type \<and>
      board_get_cell (board_lock_piece b type rotation x y) cx cy = piece_get_color type) \<and>
   (\<forall>(cx, cy) \<in> set (piece_cells type rotation x y).
      cy < 0 \<longrightarrow> board_get_cell (board_lock_piece b type rotation x y) cx cy = 0 \<and>
        cells (board_lock_piece b type rotation x y) cy cx = cells b cy cx) \<and>
   (\<forall>cx cy. (cx, cy) \<notin> set (piece_cells type rotation x y) \<longrightarrow>
      cells (board_lock_piece b type rotation x y) cy cx = cells b cy cx \<and>
      board_get_cell (board_lock_piece b type rotation x y) cx cy = board_get_cell b cx cy) \<and>
   (\<forall>cx cy. cells (board_lock_piece b type rotation x y) cy cx \<noteq> cells b cy cx \<longrightarrow>
      (cx, cy) \<in> set (piece_cells type rotation x y) \<and>
      0 \<le> cx \<and> cx < 10 \<and> 0 \<le> cy \<and> cy < 20) \<and>
   1 \<le> piece_get_color type \<and> piece_get_color type \<le> 7"
proof -
  let ?b' = "board_lock_piece b type rotation x y"
  have on: "\<forall>(cx, cy) \<in> set (piece_cells type rotation x y).
      0 \<le> cx \<and> cx < 10 \<and> 0 \<le> cy \<and> cy < 20 \<longrightarrow>
      cells ?b' cy cx = piece_get_color type \<and> board_get_cell ?b' cx cy = piece_get_color type"
    by (auto simp: cells_board_lock_piece board_get_cell_def BOARD_WIDTH_def BOARD_HEIGHT_def)
  have above: "\<forall>(cx, cy) \<in> set (piece_cells type rotation x y).
      cy < 0 \<longrightarrow> board_get_cell ?b' cx cy = 0 \<and> cells ?b' cy cx = cells b cy cx"
    by (auto simp: cells_board_lock_piece board_get_cell_def)
  have frame: "\<forall>cx cy. (cx, cy) \<notin> set (piece_cells type rotation x y) \<longrightarrow>
      cells ?b' cy cx = cells b cy cx \<and> board_get_cell ?b' cx cy = board_get_cell b cx cy"
    by (simp add: cells_board_lock_piece board_get_cell_def)
  have changed: "\<forall>cx cy. cells ?b' cy cx \<noteq> cells b cy cx \<longrightarrow>
      (cx, cy) \<in> set (piece_cells type rotation x y) \<and> 0 \<le> cx \<and> cx < 10 \<and> 0 \<le> cy \<and> cy < 20"
    by (simp add: cells_board_lock_piece BOARD_WIDTH_def BOARD_HEIGHT_def split: if_splits)
  from on above frame changed piece_get_color_range [of type] show ?thesis
    by blast
qed

theorem board_lock_piece_cells_witness:
  "piece_cells PIECE_T ROT_0 3 (- 1) = [(4, - 1), (3, 0), (4, 0), (5, 0)] \<and>
   board_get_cell (board_lock_piece board_init PIECE_T ROT_0 3 (- 1)) 3 0 = 3 \<and>
   board_get_cell (board_lock_piece board_init PIECE_T ROT_0 3 (- 1)) 4 0 = 3 \<and>
   board_get_cell (board_lock_piece board_init PIECE_T ROT_0 3 (- 1)) 5 0 = 3 \<and>
   board_get_cell (board_lock_piece board_init PIECE_T ROT_0 3 (- 1)) 4 (- 1) = 0 \<and>
   cells (board_lock_piece board_init PIECE_T ROT_0 3 (- 1)) (- 1) 4 = cells board_init (- 1) 4 \<and>
   board_get_cell (board_lock_piece board_init PIECE_T ROT_0 3 (- 1)) 6 0 =
     board_get_cell board_init 6 0"
proof -
  have cs: "piece_cells PIECE_T ROT_0 3 (- 1) = [(4, - 1), (3, 0), (4, 0), (5, 0)]"
    by (simp add: piece_cells_def piece_get_shape_def)
  have col: "piece_get_color PIECE_T = 3"
    by (simp add: piece_get_color_def)
  note t = board_lock_piece_cells [of PIECE_T ROT_0 3 "- 1" board_init, unfolded cs col]
  from cs t show ?thesis by simp
qed

section \<open>Cell queries\<close>

lemma cells_in_domain_init: "cells_in_domain board_init"
  by (simp add: cells_in_domain_def board_init_def)

lemma cells_in_domain_lock:
  "cells_in_domain b \<Longrightarrow> cells_in_domain (board_lock_piece b type rotation x y)"
  using piece_get_color_range [of type]
  by (simp add: cells_in_domain_def cells_board_lock_piece)

lemma cells_in_domain_removed:
  "cells_in_domain b \<Longrightarrow> cells_in_domain (clear_top_row (shift_rows_down b y))"
  by (simp add: cells_in_domain_def cells_clear_top_row cells_shift_rows_down)

lemma cells_in_domain_loop:
  "cells_in_domain b \<Longrightarrow> cells_in_domain (fst (clear_lines_loop b y l))"
proof (induction b y l rule: clear_lines_loop.induct)
  case (1 board y lines_cleared)
  show ?case
    using "1.IH" "1.prems" cells_in_domain_removed [of board y]
    by (subst clear_lines_loop.simps) auto
qed

lemma cells_in_domain_clear: "cells_in_domain b \<Longrightarrow> cells_in_domain (fst (board_clear_lines b))"
  by (simp add: board_clear_lines_def cells_in_domain_loop)

lemma board_reachable_in_domain: "board_reachable b \<Longrightarrow> cells_in_domain b"
  by (induction rule: board_reachable.induct)
    (simp_all add: cells_in_domain_init cells_in_domain_lock cells_in_domain_clear)

section \<open>Scoring and level\<close>

lemma game_spawn_piece_stats:
  "score (snd (game_spawn_piece g r)) = score g \<and>
   level (snd (game_spawn_piece g r)) = level g \<and>
   lines_cleared (snd (game_spawn_piece g r)) = lines_cleared g \<and>
   board (snd (game_spawn_piece g r)) = board g"
  by (simp add: game_spawn_piece_def Let_def)

lemma sdiv_nonneg: "0 \<le> a \<Longrightarrow> a sdiv 10 = a div (10::int)"
  by (simp add: signed_divide_int_def sgn_if)

lemma line_clear_scores_base: "1 \<le> n \<Longrightarrow> n \<le> 4 \<Longrightarrow> LINE_CLEAR_SCORES ! nat n = base_score n"
proof -
  assume "1 \<le> n" "n \<le> 4"
  then have "n = 1 \<or> n = 2 \<or> n = 3 \<or> n = 4" by arith
  then show ?thesis
    by (auto simp: LINE_CLEAR_SCORES_def base_score_def numeral_2_eq_2 numeral_3_eq_3
        eval_nat_numeral)
qed

lemma lock_and_clear_cleared:
  assumes "0 < locked_lines g" "locked_lines g < 5"
  shows "\<exists>g'. lock_and_clear g r = Inr g' \<and>
     lines_cleared g' = lines_cleared g + locked_lines g \<and>
     score g' = score g + LINE_CLEAR_SCORES ! nat (locked_lines g) * level g \<and>
     level g' = 1 + (lines_cleared g + locked_lines g) sdiv 10"
  using assms
  by (simp add: lock_and_clear_def locked_lines_def Let_def split_def game_spawn_piece_stats
      LINE_CLEAR_SCORES_def LINES_PER_LEVEL_def)

lemma lock_and_clear_none:
  assumes "locked_lines g \<le> 0"
  shows "\<exists>g'. lock_and_clear g r = Inr g' \<and>
     lines_cleared g' = lines_cleared g \<and> score g' = score g \<and> level g' = level g"
  using assms
  by (simp add: lock_and_clear_def locked_lines_def Let_def split_def game_spawn_piece_stats)

lemma lock_and_clear_overflow:
  assumes "5 \<le> locked_lines g"
  shows "lock_and_clear g r = Inl ArrayIndexOutOfBounds"
  using assms
  by (simp add: lock_and_clear_def locked_lines_def Let_def split_def LINE_CLEAR_SCORES_def)

text \<open>
  C3. When the lock-and-clear sequence clears \<open>count\<close> rows, \<open>1 \<le> count \<le> 4\<close>, in a game
  whose line total is not negative, it returns a game in which the line total has grown by
  exactly \<open>count\<close>, the score by \<open>base_score count\<close> times the level before the update (2400
  for four lines at level 3), and the level is \<open>1 + floor (total / 10)\<close> of the new total: 2
  at a total of 10, 1 at a total of 9.
\<close>

theorem lock_and_clear_scoring:
  assumes "snd (board_clear_lines (board_lock_piece (board g) (current_piece g)
             (current_rotation g) (piece_x g) (piece_y g))) = count"
    and "1 \<le> count" and "count \<le> 4" and "0 \<le> lines_cleared g"
  shows "\<exists>g'. lock_and_clear g rnd = Inr g' \<and>
     lines_cleared g' = lines_cleared g + count \<and>
     score g' = score g + base_score count * level g \<and>
     level g' = 1 + (lines_cleared g + count) div 10 \<and>
     level g' = 1 + \<lfloor>real_of_int (lines_cleared g') / 10\<rfloor> \<and>
     (count = 4 \<and> level g = 3 \<longrightarrow> score g' = score g + 2400) \<and>
     (lines_cleared g' = 10 \<longrightarrow> level g' = 2) \<and>
     (lines_cleared g' = 9 \<longrightarrow> level g' = 1)"
proof -
  have ll: "locked_lines g = count"
    using assms(1) by (simp add: locked_lines_def)
  obtain g' where g': "lock_and_clear g rnd = Inr g'"
      "lines_cleared g' = lines_cleared g + count"
      "score g' = score g + LINE_CLEAR_SCORES ! nat count * level g"
      "level g' = 1 + (lines_cleared g + count) sdiv 10"
    using lock_and_clear_cleared [of g rnd] assms(2,3) unfolding ll by auto
  have sc: "score g' = score g + base_score count * level g"
    using g'(3) assms(2,3) by (simp add: line_clear_scores_base)
  have lv: "level g' = 1 + (lines_cleared g + count) div 10"
    using g'(4) assms(2,4) by (simp add: sdiv_nonneg)
  have fl: "level g' = 1 + \<lfloor>real_of_int (lines_cleared g') / 10\<rfloor>"
    unfolding lv g'(2) by (simp add: floor_divide_of_int_eq [where ?'a = real, symmetric])
  have b4: "count = 4 \<and> level g = 3 \<longrightarrow> score g' = score g + 2400"
    using sc by (simp add: base_score_def)
  have l10: "lines_cleared g' = 10 \<longrightarrow> level g' = 2"
    using lv g'(2) by simp
  have l9: "lines_cleared g' = 9 \<longrightarrow> level g' = 1"
    using lv g'(2) by simp
  from g'(1,2) sc lv fl b4 l10 l9 show ?thesis by blast
qed

theorem lock_and_clear_scoring_witness:
  "locked_lines example_game_tetris = 4 \<and>
   lines_cleared example_game_tetris = 26 \<and> score example_game_tetris = 1000 \<and>
   level example_game_tetris = 3 \<and>
   map_sum id (\<lambda>g. (lines_cleared g, score g, level g)) (lock_and_clear example_game_tetris 0) =
     Inr (30, 3400, 4)"
proof -
  let ?g = example_game_tetris
  let ?locked = "board_lock_piece (board ?g) (current_piece ?g) (current_rotation ?g)
      (piece_x ?g) (piece_y ?g)"
  have rows: "board_rows ?locked =
     [[0, 0, 0, 0, 0, 0, 0, 0, 0, 0],
      [0, 0, 0, 0, 0, 0, 0, 0, 0, 0],
      [0, 0, 0, 0, 0, 0, 0, 0, 0, 0],
      [0, 0, 0, 0, 0, 0, 0, 0, 0, 0],
      [0, 0, 0, 0, 0, 0, 0, 0, 0, 0],
      [0, 0, 0, 0, 0, 0, 0, 0, 0, 0],
      [0, 0, 0, 0, 0, 0, 0, 0, 0, 0],
      [0, 0, 0, 0, 0, 0, 0, 0, 0, 0],
      [0, 0, 0, 0, 0, 0, 0, 0, 0, 0],
      [0, 0, 0, 0, 0, 0, 0, 0, 0, 0],
      [0, 0, 0, 0, 0, 0, 0, 0, 0, 0],
      [0, 0, 0, 0, 0, 0, 0, 0, 0, 0],
      [0, 0, 0, 0, 0, 0, 0, 0, 0, 0],
      [0, 0, 0, 0, 0, 0, 0, 0, 0, 0],
      [0, 0, 0, 0, 0, 0, 0, 0, 0, 0],
      [0, 0, 0, 0, 0, 0, 0, 0, 0, 0],
      [2, 2, 2, 2, 2, 2, 2, 2, 2, 1],
      [2, 2, 2, 2, 2, 2, 2, 2, 2, 1],
      [2, 2, 2, 2, 2, 2, 2, 2, 2, 1],
      [2, 2, 2, 2, 2, 2, 2, 2, 2, 1]]"
    by (simp add: board_rows_def cells_board_lock_piece piece_cells_def piece_get_shape_def
        piece_get_color_def example_game_tetris_def BOARD_WIDTH_def BOARD_HEIGHT_def
        upto_0_9 upto_0_19)
  have cnt: "snd (board_clear_lines ?locked) = 4"
    using board_clear_lines_refines [of ?locked]
    by (simp add: spec_clear_full_lines_def Let_def rows row_full_def)
  have st: "lines_cleared ?g = 26" "score ?g = 1000" "level ?g = 3"
    by (simp_all add: example_game_tetris_def)
  have h: "(1::int) \<le> 4" "(4::int) \<le> 4" "0 \<le> lines_cleared ?g"
    by (simp_all add: st)
  obtain g' where g': "lock_and_clear ?g 0 = Inr g'" "lines_cleared g' = lines_cleared ?g + 4"
      "score g' = score ?g + base_score 4 * level ?g" "level g' = 1 + (lines_cleared ?g + 4) div 10"
    using lock_and_clear_scoring [OF cnt h, of 0] by blast
  show ?thesis
    using cnt g' by (simp add: locked_lines_def st base_score_def)
qed

section \<open>Hard drop\<close>

lemma shape_offsets:
  "c \<in> set (piece_get_shape type rotation) \<Longrightarrow>
     0 \<le> fst c \<and> fst c \<le> 3 \<and> 0 \<le> snd c \<and> snd c \<le> 3"
  by (cases type; cases rotation) (auto simp: piece_get_shape_def)

lemma shape_nonempty: "piece_get_shape type rotation \<noteq> []"
  using length_piece_get_shape [of type rotation] by auto

lemma no_collision_row:
  assumes "\<not> board_check_collision b type rotation x y"
  shows "y \<le> 19"
proof -
  obtain c where c: "c \<in> set (piece_get_shape type rotation)"
    using shape_nonempty [of type rotation] by (cases "piece_get_shape type rotation") auto
  from assms c have "y + snd c < BOARD_HEIGHT"
    unfolding board_check_collision_def check_blocks_iff by auto
  with shape_offsets [OF c] show ?thesis
    by (simp add: BOARD_HEIGHT_def)
qed

lemma collision_below_floor:
  assumes "\<exists>c \<in> set (piece_cells type rotation x y). BOARD_HEIGHT \<le> snd c"
  shows "board_check_collision b type rotation x y"
  using assms unfolding board_check_collision_def check_blocks_iff piece_cells_def
  by auto

lemma hard_drop_loop_result:
  "\<exists>n. 0 \<le> n \<and> n \<le> max 0 (19 - piece_y g) \<and>
     hard_drop_loop g d = Some (g\<lparr>piece_y := piece_y g + n\<rparr>, d + n) \<and>
     board_check_collision (board g) (current_piece g) (current_rotation g) (piece_x g)
       (piece_y g + n + 1)"
proof (induction "nat (20 - piece_y g)" arbitrary: g d rule: less_induct)
  case less
  show ?case
  proof (cases "board_check_collision (board g) (current_piece g) (current_rotation g)
      (piece_x g) (piece_y g + 1)")
    case True
    then have "hard_drop_loop g d = Some (g\<lparr>piece_y := piece_y g + 0\<rparr>, d + 0)"
      by (subst hard_drop_loop.simps) simp
    with True show ?thesis
      by (intro exI [of _ 0]) simp
  next
    case False
    let ?g1 = "g\<lparr>piece_y := piece_y g + 1\<rparr>"
    from no_collision_row [OF False] have y: "piece_y g \<le> 18" by simp
    then have "nat (20 - piece_y ?g1) < nat (20 - piece_y g)" by simp
    from less [OF this, of "d + 1"] obtain n where n: "0 \<le> n" "n \<le> max 0 (19 - piece_y ?g1)"
        "hard_drop_loop ?g1 (d + 1) = Some (?g1\<lparr>piece_y := piece_y ?g1 + n\<rparr>, d + 1 + n)"
        "board_check_collision (board ?g1) (current_piece ?g1) (current_rotation ?g1)
           (piece_x ?g1) (piece_y ?g1 + n + 1)"
      by blast
    have step: "hard_drop_loop g d = hard_drop_loop ?g1 (d + 1)"
      using False by (subst hard_drop_loop.simps) simp
    show ?thesis
      using n y unfolding step
      by (intro exI [of _ "n + 1"]) (simp add: add.assoc add.commute)
  qed
qed

lemma game_hard_drop_returns: "\<exists>res. game_hard_drop g rnd = Some res"
proof -
  obtain n where "hard_drop_loop g 0 = Some (g\<lparr>piece_y := piece_y g + n\<rparr>, 0 + n)"
    using hard_drop_loop_result [of g 0] by blast
  then show ?thesis
    by (simp add: game_hard_drop_def)
qed

lemma hard_drop_loop_run:
  "\<exists>n. 0 \<le> n \<and> n \<le> max 0 (19 - piece_y g) \<and>
     hard_drop_loop g d = Some (g\<lparr>piece_y := piece_y g + n\<rparr>, d + n) \<and>
     (\<forall>k. 0 \<le> k \<and> k < n \<longrightarrow>
        \<not> board_check_collision (board g) (current_piece g) (current_rotation g) (piece_x g)
            (piece_y g + k + 1)) \<and>
     board_check_collision (board g) (current_piece g) (current_rotation g) (piece_x g)
       (piece_y g + n + 1)"
proof (induction "nat (20 - piece_y g)" arbitrary: g d rule: less_induct)
  case less
  let ?coll = "\<lambda>y. board_check_collision (board g) (current_piece g) (current_rotation g)
      (piece_x g) y"
  show ?case
  proof (cases "?coll (piece_y g + 1)")
    case True
    then have "hard_drop_loop g d = Some (g\<lparr>piece_y := piece_y g + 0\<rparr>, d + 0)"
      by (subst hard_drop_loop.simps) simp
    with True show ?thesis
      by (intro exI [of _ 0]) auto
  next
    case False
    let ?g1 = "g\<lparr>piece_y := piece_y g + 1\<rparr>"
    from no_collision_row [OF False] have y: "piece_y g \<le> 18" by simp
    then have "nat (20 - piece_y ?g1) < nat (20 - piece_y g)" by simp
    from less [OF this, of "d + 1"] obtain n where n: "0 \<le> n" "n \<le> max 0 (19 - piece_y ?g1)"
        "hard_drop_loop ?g1 (d + 1) = Some (?g1\<lparr>piece_y := piece_y ?g1 + n\<rparr>, d + 1 + n)"
        "\<forall>k. 0 \<le> k \<and> k < n \<longrightarrow>
           \<not> board_check_collision (board ?g1) (current_piece ?g1) (current_rotation ?g1)
               (piece_x ?g1) (piece_y ?g1 + k + 1)"
        "board_check_collision (board ?g1) (current_piece ?g1) (current_rotation ?g1)
           (piece_x ?g1) (piece_y ?g1 + n + 1)"
      by blast
    have step: "hard_drop_loop g d = hard_drop_loop ?g1 (d + 1)"
      using False by (subst hard_drop_loop.simps) simp
    have free: "\<not> ?coll (piece_y g + k + 1)" if k: "0 \<le> k" "k < n + 1" for k
    proof (cases "k = 0")
      case True
      with False show ?thesis by simp
    next
      case nz: False
      with k have "0 \<le> k - 1 \<and> k - 1 < n" by simp
      with n(4) have "\<not> board_check_collision (board ?g1) (current_piece ?g1)
          (current_rotation ?g1) (piece_x ?g1) (piece_y ?g1 + (k - 1) + 1)"
        by blast
      moreover have "piece_y ?g1 + (k - 1) + 1 = piece_y g + k + 1" by simp
      ultimately show ?thesis by simp
    qed
    have "piece_y ?g1 + n + 1 = piece_y g + (n + 1) + 1" by simp
    with n(5) have last: "?coll (piece_y g + (n + 1) + 1)"
      by simp
    have res: "hard_drop_loop g d = Some (g\<lparr>piece_y := piece_y g + (n + 1)\<rparr>, d + (n + 1))"
      unfolding step n(3) by (simp add: algebra_simps)
    have bound: "0 \<le> n + 1" "n + 1 \<le> max 0 (19 - piece_y g)"
      using n(1,2) y by simp_all
    from bound res free last show ?thesis
      by (intro exI [of _ "n + 1"]) blast
  qed
qed

text \<open>
  C10. \<open>game_hard_drop\<close> returns for every game in Playing, whatever the board holds, from
  every position of the piece that leaves room for the \<open>int\<close> arithmetic of the loop:
  \<open>INT_MIN \<le> piece_x \<le> INT_MAX - 3\<close> and \<open>19 - INT_MAX \<le> piece_y \<le> INT_MAX - 4\<close>, so that no
  \<open>x + dx\<close>, \<open>piece_y + 1\<close>, \<open>y + dy\<close> or \<open>drop_distance + 1\<close> overflows (beyond these bounds
  the C program has no defined behaviour). An iteration of the descent loop is taken only
  when the position one row down does not collide, and it adds one to \<open>piece_y\<close>, which stays
  at most 19; a position with some cell of the piece in a row \<open>\<ge> BOARD_HEIGHT\<close> collides; so
  the loop runs \<open>n \<le> max 0 (19 - piece_y)\<close> iterations, through the positions
  \<open>piece_y + 1, ..., piece_y + n\<close>, and stops where the next row collides, with the drop
  distance \<open>n\<close> and every sum it computed within \<open>INT_MAX\<close>.
\<close>

theorem game_hard_drop_terminates:
  assumes "INT_MIN \<le> piece_x g" and "piece_x g + 3 \<le> INT_MAX"
    and "19 - INT_MAX \<le> piece_y g" and "piece_y g + 4 \<le> INT_MAX"
  shows "(state g = GAME_STATE_PLAYING \<longrightarrow> (\<exists>res. game_hard_drop g rnd = Some res)) \<and>
   (\<exists>n. 0 \<le> n \<and> n \<le> max 0 (19 - piece_y g) \<and> n \<le> INT_MAX \<and>
      piece_y g + n + 4 \<le> INT_MAX \<and>
      hard_drop_loop g 0 = Some (g\<lparr>piece_y := piece_y g + n\<rparr>, n) \<and>
      (\<forall>k. 0 \<le> k \<and> k < n \<longrightarrow>
         \<not> board_check_collision (board g) (current_piece g) (current_rotation g) (piece_x g)
             (piece_y g + k + 1) \<and>
         hard_drop_loop (g\<lparr>piece_y := piece_y g + k\<rparr>) k =
           hard_drop_loop (g\<lparr>piece_y := piece_y g + k + 1\<rparr>) (k + 1) \<and>
         piece_y g + k < piece_y g + k + 1 \<and> piece_y g + k + 1 \<le> 19) \<and>
      board_check_collision (board g) (current_piece g) (current_rotation g) (piece_x g)
        (piece_y g + n + 1)) \<and>
   (\<not> board_check_collision (board g) (current_piece g) (current_rotation g) (piece_x g)
        (piece_y g + 1) \<longrightarrow>
      hard_drop_loop g 0 = hard_drop_loop (g\<lparr>piece_y := piece_y g + 1\<rparr>) 1 \<and>
      piece_y g < piece_y (g\<lparr>piece_y := piece_y g + 1\<rparr>) \<and>
      piece_y (g\<lparr>piece_y := piece_y g + 1\<rparr>) \<le> 19) \<and>
   (INT_MIN \<le> x \<and> x + 3 \<le> INT_MAX \<and> INT_MIN \<le> y \<and> y + 3 \<le> INT_MAX \<and>
    (\<exists>c \<in> set (piece_cells type rotation x y). BOARD_HEIGHT \<le> snd c) \<longrightarrow>
      board_check_collision b type rotation x y)"
proof -
  let ?coll = "\<lambda>y. board_check_collision (board g) (current_piece g) (current_rotation g)
      (piece_x g) y"
  obtain n where n: "0 \<le> n" "n \<le> max 0 (19 - piece_y g)"
      "hard_drop_loop g 0 = Some (g\<lparr>piece_y := piece_y g + n\<rparr>, 0 + n)"
      "\<forall>k. 0 \<le> k \<and> k < n \<longrightarrow> \<not> ?coll (piece_y g + k + 1)"
      "?coll (piece_y g + n + 1)"
    using hard_drop_loop_run [of g 0] by blast
  have r1: "n \<le> INT_MAX"
    using n(2) assms(3) by (simp add: INT_MAX_def)
  have r2: "piece_y g + n + 4 \<le> INT_MAX"
    using n(1,2) assms(4) by (cases "n = 0") (simp_all add: INT_MAX_def)
  have each: "\<not> ?coll (piece_y g + k + 1) \<and>
      hard_drop_loop (g\<lparr>piece_y := piece_y g + k\<rparr>) k =
        hard_drop_loop (g\<lparr>piece_y := piece_y g + k + 1\<rparr>) (k + 1) \<and>
      piece_y g + k < piece_y g + k + 1 \<and> piece_y g + k + 1 \<le> 19"
    if k: "0 \<le> k \<and> k < n" for k
  proof -
    from n(4) k have nc: "\<not> ?coll (piece_y g + k + 1)" by blast
    then have "hard_drop_loop (g\<lparr>piece_y := piece_y g + k\<rparr>) k =
        hard_drop_loop (g\<lparr>piece_y := piece_y g + k + 1\<rparr>) (k + 1)"
      by (subst hard_drop_loop.simps) simp
    with nc no_collision_row [OF nc] show ?thesis by simp
  qed
  have loop: "\<exists>n. 0 \<le> n \<and> n \<le> max 0 (19 - piece_y g) \<and> n \<le> INT_MAX \<and>
      piece_y g + n + 4 \<le> INT_MAX \<and>
      hard_drop_loop g 0 = Some (g\<lparr>piece_y := piece_y g + n\<rparr>, n) \<and>
      (\<forall>k. 0 \<le> k \<and> k < n \<longrightarrow>
         \<not> ?coll (piece_y g + k + 1) \<and>
         hard_drop_loop (g\<lparr>piece_y := piece_y g + k\<rparr>) k =
           hard_drop_loop (g\<lparr>piece_y := piece_y g + k + 1\<rparr>) (k + 1) \<and>
         piece_y g + k < piece_y g + k + 1 \<and> piece_y g + k + 1 \<le> 19) \<and>
      ?coll (piece_y g + n + 1)"
    using n(1,2,3,5) r1 r2 each by (intro exI [of _ n]) simp
  have iter: "\<not> ?coll (piece_y g + 1) \<longrightarrow>
      hard_drop_loop g 0 = hard_drop_loop (g\<lparr>piece_y := piece_y g + 1\<rparr>) 1 \<and>
      piece_y g < piece_y (g\<lparr>piece_y := piece_y g + 1\<rparr>) \<and>
      piece_y (g\<lparr>piece_y := piece_y g + 1\<rparr>) \<le> 19"
  proof
    assume nc: "\<not> ?coll (piece_y g + 1)"
    then have "hard_drop_loop g 0 = hard_drop_loop (g\<lparr>piece_y := piece_y g + 1\<rparr>) 1"
      by (subst hard_drop_loop.simps) simp
    with no_collision_row [OF nc]
    show "hard_drop_loop g 0 = hard_drop_loop (g\<lparr>piece_y := piece_y g + 1\<rparr>) 1 \<and>
      piece_y g < piece_y (g\<lparr>piece_y := piece_y g + 1\<rparr>) \<and>
      piece_y (g\<lparr>piece_y := piece_y g + 1\<rparr>) \<le> 19"
      by simp
  qed
  from game_hard_drop_returns [of g rnd] loop iter
    collision_below_floor [of type rotation x y b]
  show ?thesis by blast
qed

theorem game_hard_drop_terminates_witness:
  "INT_MIN \<le> piece_x example_game_99 \<and> piece_x example_game_99 + 3 \<le> INT_MAX \<and>
   19 - INT_MAX \<le> piece_y example_game_99 \<and> piece_y example_game_99 + 4 \<le> INT_MAX \<and>
   state example_game_99 = GAME_STATE_PLAYING \<and>
   game_hard_drop example_game_99 0 \<noteq> None \<and>
   map_option snd (hard_drop_loop example_game_99 0) = Some 18 \<and>
   map_option snd (hard_drop_loop (example_game_99\<lparr>piece_y := 2147483643\<rparr>) 0) = Some 0 \<and>
   piece_cells PIECE_I ROT_0 0 19 = [(0, 20), (1, 20), (2, 20), (3, 20)] \<and>
   board_check_collision board_init PIECE_I ROT_0 0 19"
proof -
  let ?g = example_game_99
  let ?hi = "example_game_99\<lparr>piece_y := 2147483643\<rparr>"
  let ?coll = "\<lambda>y. board_check_collision (board ?g) (current_piece ?g) (current_rotation ?g)
      (piece_x ?g) y"
  have st: "state ?g = GAME_STATE_PLAYING" "piece_x ?g = 0" "piece_y ?g = 0"
    by (simp_all add: example_game_99_def)
  have rg: "INT_MIN \<le> piece_x ?g" "piece_x ?g + 3 \<le> INT_MAX"
      "19 - INT_MAX \<le> piece_y ?g" "piece_y ?g + 4 \<le> INT_MAX"
    by (simp_all add: st INT_MIN_def INT_MAX_def)
  have rh: "INT_MIN \<le> piece_x ?hi" "piece_x ?hi + 3 \<le> INT_MAX"
      "19 - INT_MAX \<le> piece_y ?hi" "piece_y ?hi + 4 \<le> INT_MAX"
    by (simp_all add: st INT_MIN_def INT_MAX_def)
  have cs: "piece_cells PIECE_I ROT_0 0 19 = [(0, 20), (1, 20), (2, 20), (3, 20)]"
    by (simp add: piece_cells_def piece_get_shape_def)
  have fl: "INT_MIN \<le> (0::int) \<and> (0::int) + 3 \<le> INT_MAX \<and> INT_MIN \<le> (19::int) \<and>
      (19::int) + 3 \<le> INT_MAX \<and>
      (\<exists>c \<in> set (piece_cells PIECE_I ROT_0 0 19). BOARD_HEIGHT \<le> snd c)"
    unfolding cs by (simp add: BOARD_HEIGHT_def INT_MIN_def INT_MAX_def)
  note t = game_hard_drop_terminates [OF rg, of 0 0 19 PIECE_I ROT_0 board_init]
  note th = game_hard_drop_terminates [OF rh, of 0 0 19 PIECE_I ROT_0 board_init]
  from t st have ret: "game_hard_drop ?g 0 \<noteq> None" by auto
  from t fl have floor: "board_check_collision board_init PIECE_I ROT_0 0 19" by blast
  have c19: "?coll 19"
    by (simp add: example_game_99_def board_check_collision_def piece_get_shape_def
        BOARD_WIDTH_def BOARD_HEIGHT_def)
  have c18: "\<not> ?coll 18"
    by (simp add: example_game_99_def board_check_collision_def piece_get_shape_def
        BOARD_WIDTH_def BOARD_HEIGHT_def)
  from t obtain n where n: "0 \<le> n" "n \<le> max 0 (19 - piece_y ?g)"
      "hard_drop_loop ?g 0 = Some (?g\<lparr>piece_y := piece_y ?g + n\<rparr>, n)"
      "\<forall>k. 0 \<le> k \<and> k < n \<longrightarrow> \<not> ?coll (piece_y ?g + k + 1)"
      "?coll (piece_y ?g + n + 1)"
    by blast
  have "n = 18"
  proof (rule ccontr)
    assume ne: "n \<noteq> 18"
    from n(1,2) have "n \<le> 19" by (simp add: st)
    with ne consider "n = 19" | "n \<le> 17" by linarith
    then show False
    proof cases
      case 1
      then have "0 \<le> (18::int) \<and> 18 < n" by simp
      from n(4) [rule_format, OF this] have "\<not> ?coll (piece_y ?g + 18 + 1)" .
      with c19 show False by (simp add: st)
    next
      case 2
      have "\<not> ?coll (n + 1)"
        using 2 n(1)
        by (simp add: example_game_99_def board_check_collision_def piece_get_shape_def
            BOARD_WIDTH_def BOARD_HEIGHT_def)
      with n(5) show False by (simp add: st)
    qed
  qed
  with n(3) have lo: "map_option snd (hard_drop_loop ?g 0) = Some 18" by simp
  from th obtain m where m: "0 \<le> m" "m \<le> max 0 (19 - piece_y ?hi)"
      "hard_drop_loop ?hi 0 = Some (?hi\<lparr>piece_y := piece_y ?hi + m\<rparr>, m)"
    by blast
  from m(1,2) have "m = 0" by simp
  with m(3) have hi: "map_option snd (hard_drop_loop ?hi 0) = Some 0" by simp
  from rg st(1) ret lo hi cs floor show ?thesis by blast
qed

section \<open>Rotation\<close>

lemma rotate_kicks_find:
  "(case find (\<lambda>(tx, ty). \<not> board_check_collision (board g) (current_piece g) nr tx ty)
          (map (\<lambda>(dx, dy). (piece_x g + dx, piece_y g + dy)) ks) of
      None \<Rightarrow> rotate_kicks g nr ks = (False, g)
    | Some (tx, ty) \<Rightarrow>
        fst (rotate_kicks g nr ks) = True \<and>
        current_rotation (snd (rotate_kicks g nr ks)) = nr \<and>
        piece_x (snd (rotate_kicks g nr ks)) = tx \<and>
        piece_y (snd (rotate_kicks g nr ks)) = ty \<and>
        board (snd (rotate_kicks g nr ks)) = board g \<and>
        state (snd (rotate_kicks g nr ks)) = state g \<and>
        current_piece (snd (rotate_kicks g nr ks)) = current_piece g)"
proof (induction ks)
  case Nil
  show ?case by simp
next
  case (Cons k ks)
  show ?case
  proof (cases "board_check_collision (board g) (current_piece g) nr
      (piece_x g + fst k) (piece_y g + snd k)")
    case True
    then have step: "rotate_kicks g nr (k # ks) = rotate_kicks g nr ks"
      by (simp add: Let_def)
    from True Cons.IH show ?thesis
      unfolding step by (simp add: split_def)
  next
    case False
    then show ?thesis
      by (simp add: split_def Let_def)
  qed
qed

lemma piece_rotate_cw_cycle:
  "piece_rotate_cw ROT_0 = ROT_90 \<and> piece_rotate_cw ROT_90 = ROT_180 \<and>
   piece_rotate_cw ROT_180 = ROT_270 \<and> piece_rotate_cw ROT_270 = ROT_0"
  by (simp add: piece_rotate_cw_def rotation_of_index_def)

text \<open>
  C5. In Playing, \<open>game_rotate\<close> takes the clockwise successor of the rotation (0, 90, 180,
  270 degrees and back to 0) and tests the positions no shift, left 1, right 1, up 1, left 2,
  right 2 of the current position, in that order, for a collision at the new rotation. It
  commits the first one that does not collide, setting rotation, x and y together, and
  returns true; board, state and piece type stay. If every candidate collides it returns
  false and the game is unchanged.
\<close>

theorem game_rotate_first_fit:
  assumes "state g = GAME_STATE_PLAYING"
  shows "(case find (\<lambda>(tx, ty). \<not> board_check_collision (board g) (current_piece g)
                     (piece_rotate_cw (current_rotation g)) tx ty)
               (spec_rotate_candidates g) of
      None \<Rightarrow> game_rotate g = (False, g)
    | Some (tx, ty) \<Rightarrow>
        fst (game_rotate g) = True \<and>
        current_rotation (snd (game_rotate g)) = piece_rotate_cw (current_rotation g) \<and>
        piece_x (snd (game_rotate g)) = tx \<and>
        piece_y (snd (game_rotate g)) = ty \<and>
        board (snd (game_rotate g)) = board g \<and>
        state (snd (game_rotate g)) = state g \<and>
        current_piece (snd (game_rotate g)) = current_piece g) \<and>
    piece_rotate_cw ROT_0 = ROT_90 \<and> piece_rotate_cw ROT_90 = ROT_180 \<and>
    piece_rotate_cw ROT_180 = ROT_270 \<and> piece_rotate_cw ROT_270 = ROT_0"
proof -
  have r: "game_rotate g =
      rotate_kicks g (piece_rotate_cw (current_rotation g)) WALL_KICK_OFFSETS"
    using assms by (simp add: game_rotate_def)
  have c: "spec_rotate_candidates g =
      map (\<lambda>(dx, dy). (piece_x g + dx, piece_y g + dy)) WALL_KICK_OFFSETS"
    by (simp add: spec_rotate_candidates_def WALL_KICK_OFFSETS_def)
  show ?thesis
    unfolding r c
    using rotate_kicks_find [of g "piece_rotate_cw (current_rotation g)" WALL_KICK_OFFSETS]
      piece_rotate_cw_cycle
    by simp
qed

theorem game_rotate_first_fit_witness:
  "state example_game_wall = GAME_STATE_PLAYING \<and>
   spec_rotate_candidates example_game_wall =
     [(- 1, 5), (- 2, 5), (0, 5), (- 1, 4), (- 3, 5), (1, 5)] \<and>
   map (\<lambda>(tx, ty). board_check_collision (board example_game_wall) PIECE_T ROT_180 tx ty)
     (spec_rotate_candidates example_game_wall) = [True, True, False, True, True, False] \<and>
   fst (game_rotate example_game_wall) = True \<and>
   current_rotation (snd (game_rotate example_game_wall)) = ROT_180 \<and>
   piece_x (snd (game_rotate example_game_wall)) = 0 \<and>
   piece_y (snd (game_rotate example_game_wall)) = 5 \<and>
   state example_game_stuck = GAME_STATE_PLAYING \<and>
   spec_rotate_candidates example_game_stuck =
     [(- 2, 16), (- 3, 16), (- 1, 16), (- 2, 15), (- 4, 16), (0, 16)] \<and>
   map (\<lambda>(tx, ty). board_check_collision (board example_game_stuck) PIECE_I ROT_180 tx ty)
     (spec_rotate_candidates example_game_stuck) = [True, True, True, True, True, True] \<and>
   game_rotate example_game_stuck = (False, example_game_stuck)"
proof -
  have st: "state example_game_wall = GAME_STATE_PLAYING"
      "state example_game_stuck = GAME_STATE_PLAYING"
    by (simp_all add: example_game_wall_def example_game_stuck_def)
  have nr: "piece_rotate_cw (current_rotation example_game_wall) = ROT_180"
      "piece_rotate_cw (current_rotation example_game_stuck) = ROT_180"
      "current_piece example_game_wall = PIECE_T" "current_piece example_game_stuck = PIECE_I"
    by (simp_all add: example_game_wall_def example_game_stuck_def piece_rotate_cw_def
        rotation_of_index_def)
  have cs: "spec_rotate_candidates example_game_wall =
        [(- 1, 5), (- 2, 5), (0, 5), (- 1, 4), (- 3, 5), (1, 5)]"
      "spec_rotate_candidates example_game_stuck =
        [(- 2, 16), (- 3, 16), (- 1, 16), (- 2, 15), (- 4, 16), (0, 16)]"
    by (simp_all add: spec_rotate_candidates_def example_game_wall_def example_game_stuck_def)
  have col1: "map (\<lambda>(tx, ty). board_check_collision (board example_game_wall) PIECE_T ROT_180 tx ty)
      [(- 1, 5), (- 2, 5), (0, 5), (- 1, 4), (- 3, 5), (1, 5)] =
      [True, True, False, True, True, False]"
    by (simp add: board_check_collision_def piece_get_shape_def example_game_wall_def
        board_init_def BOARD_WIDTH_def BOARD_HEIGHT_def)
  have col2: "map (\<lambda>(tx, ty). board_check_collision (board example_game_stuck) PIECE_I ROT_180 tx ty)
      [(- 2, 16), (- 3, 16), (- 1, 16), (- 2, 15), (- 4, 16), (0, 16)] =
      [True, True, True, True, True, True]"
    by (simp add: board_check_collision_def piece_get_shape_def example_game_stuck_def
        BOARD_WIDTH_def BOARD_HEIGHT_def)
  note t1 = game_rotate_first_fit [OF st(1), unfolded nr cs]
  note t2 = game_rotate_first_fit [OF st(2), unfolded nr cs]
  from col1 t1 have r1: "fst (game_rotate example_game_wall) = True \<and>
      current_rotation (snd (game_rotate example_game_wall)) = ROT_180 \<and>
      piece_x (snd (game_rotate example_game_wall)) = 0 \<and>
      piece_y (snd (game_rotate example_game_wall)) = 5"
    by simp
  from col2 t2 have r2: "game_rotate example_game_stuck = (False, example_game_stuck)"
    by simp
  from st cs col1 col2 r1 r2 show ?thesis by simp
qed

section \<open>Spawning\<close>

lemma upto_0_1: "[0..1] = [0, 1]"
  by code_simp

lemma board_is_spawn_blocked_iff:
  "board_is_spawn_blocked b = (\<exists>(x, y) \<in> set spawn_footprint. board_get_cell b x y \<noteq> 0)"
  by (auto simp: board_is_spawn_blocked_def spawn_footprint_def board_get_cell_def Let_def
      BOARD_WIDTH_def BOARD_HEIGHT_def signed_divide_int_def upto_0_1)

lemma spawn_cell_in_footprint:
  "(4, 1) \<in> set (piece_cells type ROT_0 SPAWN_X SPAWN_Y)"
  by (cases type) (simp_all add: piece_cells_def piece_get_shape_def SPAWN_X_def SPAWN_Y_def)

lemma footprint_blocks_spawn:
  assumes "\<forall>(x, y) \<in> set spawn_footprint. board_get_cell b x y \<noteq> 0"
  shows "board_check_collision b type ROT_0 SPAWN_X SPAWN_Y"
proof -
  from assms have "board_get_cell b 4 1 \<noteq> 0"
    by (simp add: spawn_footprint_def)
  then have "cells b 1 4 \<noteq> 0"
    by (simp add: board_get_cell_def BOARD_WIDTH_def BOARD_HEIGHT_def)
  moreover obtain c where "c \<in> set (piece_get_shape type ROT_0)"
      "SPAWN_X + fst c = 4" "SPAWN_Y + snd c = 1"
    using spawn_cell_in_footprint [of type] by (auto simp: piece_cells_def)
  ultimately show ?thesis
    unfolding board_check_collision_def check_blocks_iff by force
qed

lemma game_spawn_piece_result:
  "fst (game_spawn_piece g rnd) =
     (\<not> board_check_collision (board g) (next_piece g) ROT_0 SPAWN_X SPAWN_Y) \<and>
   state (snd (game_spawn_piece g rnd)) =
     (if board_check_collision (board g) (next_piece g) ROT_0 SPAWN_X SPAWN_Y
      then GAME_STATE_GAME_OVER else state g) \<and>
   current_piece (snd (game_spawn_piece g rnd)) = next_piece g \<and>
   current_rotation (snd (game_spawn_piece g rnd)) = ROT_0 \<and>
   piece_x (snd (game_spawn_piece g rnd)) = SPAWN_X \<and>
   piece_y (snd (game_spawn_piece g rnd)) = SPAWN_Y"
  by (simp add: game_spawn_piece_def Let_def)

text \<open>
  C6. If every cell of the top-centre 2 by 2 spawn footprint (columns 4 and 5 of rows 0 and
  1, the cells \<open>board_is_spawn_blocked\<close> scans) is occupied, then for each of the seven types
  the next piece can have, \<open>game_spawn_piece\<close> returns false and leaves the game in GameOver.
  In general it returns false and moves to GameOver exactly when the promoted piece collides
  at the spawn position; when it does not collide, it returns true and the state stays.
\<close>

theorem game_spawn_piece_blocked:
  "((\<forall>(x, y) \<in> set spawn_footprint. board_get_cell (board g) x y \<noteq> 0) \<longrightarrow>
      board_is_spawn_blocked (board g) \<and>
      fst (game_spawn_piece g rnd) = False \<and>
      state (snd (game_spawn_piece g rnd)) = GAME_STATE_GAME_OVER) \<and>
   (board_check_collision (board g) (next_piece g) ROT_0 SPAWN_X SPAWN_Y \<longrightarrow>
      fst (game_spawn_piece g rnd) = False \<and>
      state (snd (game_spawn_piece g rnd)) = GAME_STATE_GAME_OVER) \<and>
   (\<not> board_check_collision (board g) (next_piece g) ROT_0 SPAWN_X SPAWN_Y \<longrightarrow>
      fst (game_spawn_piece g rnd) = True \<and>
      state (snd (game_spawn_piece g rnd)) = state g)"
proof -
  have blocked: "board_is_spawn_blocked (board g) \<and>
      board_check_collision (board g) (next_piece g) ROT_0 SPAWN_X SPAWN_Y"
    if "\<forall>(x, y) \<in> set spawn_footprint. board_get_cell (board g) x y \<noteq> 0"
    using that footprint_blocks_spawn [OF that, of "next_piece g"]
    by (simp add: board_is_spawn_blocked_iff spawn_footprint_def)
  show ?thesis
    using blocked game_spawn_piece_result [of g rnd] by auto
qed

theorem game_spawn_piece_blocked_witness:
  "map (\<lambda>(x, y). board_get_cell (board example_game_blocked) x y) spawn_footprint = [5, 5, 5, 5] \<and>
   next_piece example_game_blocked = PIECE_J \<and>
   fst (game_spawn_piece example_game_blocked 0) = False \<and>
   state (snd (game_spawn_piece example_game_blocked 0)) = GAME_STATE_GAME_OVER \<and>
   \<not> board_check_collision (board example_game_tetris) (next_piece example_game_tetris) ROT_0
       SPAWN_X SPAWN_Y \<and>
   fst (game_spawn_piece example_game_tetris 0) = True \<and>
   state (snd (game_spawn_piece example_game_tetris 0)) = GAME_STATE_PLAYING"
proof -
  have fp: "map (\<lambda>(x, y). board_get_cell (board example_game_blocked) x y) spawn_footprint =
      [5, 5, 5, 5]"
    by (simp add: spawn_footprint_def example_game_blocked_def board_get_cell_def
        BOARD_WIDTH_def BOARD_HEIGHT_def)
  then have h: "\<forall>(x, y) \<in> set spawn_footprint. board_get_cell (board example_game_blocked) x y \<noteq> 0"
    by (simp add: spawn_footprint_def)
  have nc: "\<not> board_check_collision (board example_game_tetris) (next_piece example_game_tetris)
      ROT_0 SPAWN_X SPAWN_Y"
    by (simp add: board_check_collision_def piece_get_shape_def example_game_tetris_def
        SPAWN_X_def SPAWN_Y_def BOARD_WIDTH_def BOARD_HEIGHT_def)
  have st: "state example_game_tetris = GAME_STATE_PLAYING"
      "next_piece example_game_blocked = PIECE_J"
    by (simp_all add: example_game_tetris_def example_game_blocked_def)
  from game_spawn_piece_blocked [of example_game_blocked 0] h
  have b: "fst (game_spawn_piece example_game_blocked 0) = False \<and>
      state (snd (game_spawn_piece example_game_blocked 0)) = GAME_STATE_GAME_OVER"
    by blast
  from game_spawn_piece_blocked [of example_game_tetris 0] nc st
  have u: "fst (game_spawn_piece example_game_tetris 0) = True \<and>
      state (snd (game_spawn_piece example_game_tetris 0)) = GAME_STATE_PLAYING"
    by simp
  from fp st nc b u show ?thesis by blast
qed

section \<open>Pause\<close>

lemma game_update_not_playing: "state g \<noteq> GAME_STATE_PLAYING \<Longrightarrow> game_update g dt rnd = Inr g"
  by (simp add: game_update_def)

lemma game_updates_paused: "state g = GAME_STATE_PAUSED \<Longrightarrow> game_updates g calls = Inr g"
  by (induction calls) (simp_all add: game_update_not_playing)

text \<open>
  C8. In Paused, \<open>game_update\<close> returns the game it was given, for every delta time, and so
  does any number of calls in a row: board, score, level, lines, piece and both timers are
  what they were. \<open>game_toggle_pause\<close> from Paused changes the state to Playing and nothing
  else, so the gravity and lock-delay timers are as they were when the game was paused.
\<close>

theorem game_update_paused:
  assumes "state g = GAME_STATE_PAUSED"
  shows "game_update g delta_time rnd = Inr g \<and>
     game_updates g calls = Inr g \<and>
     game_toggle_pause g = g\<lparr>state := GAME_STATE_PLAYING\<rparr> \<and>
     state (game_toggle_pause g) = GAME_STATE_PLAYING \<and>
     gravity_timer (game_toggle_pause g) = gravity_timer g \<and>
     lock_delay_timer (game_toggle_pause g) = lock_delay_timer g"
  using assms
  by (simp add: game_update_not_playing game_updates_paused game_toggle_pause_def)

theorem game_update_paused_witness:
  "state example_game_paused = GAME_STATE_PAUSED \<and>
   game_update example_game_paused 0.6 3 = Inr example_game_paused \<and>
   game_updates example_game_paused [(0.6, 3), (0.1, 4), (5, 0)] = Inr example_game_paused \<and>
   state (game_toggle_pause example_game_paused) = GAME_STATE_PLAYING \<and>
   gravity_timer (game_toggle_pause example_game_paused) = 0.3 \<and>
   lock_delay_timer (game_toggle_pause example_game_paused) = 0.2"
proof -
  have st: "state example_game_paused = GAME_STATE_PAUSED"
      "gravity_timer example_game_paused = 0.3" "lock_delay_timer example_game_paused = 0.2"
    by (simp_all add: example_game_paused_def)
  note t = game_update_paused [OF st(1), of "0.6" 3 "[(0.6, 3), (0.1, 4), (5, 0)]"]
  from t have u: "game_update example_game_paused 0.6 3 = Inr example_game_paused"
      "game_updates example_game_paused [(0.6, 3), (0.1, 4), (5, 0)] = Inr example_game_paused"
      "state (game_toggle_pause example_game_paused) = GAME_STATE_PLAYING"
      "gravity_timer (game_toggle_pause example_game_paused) = gravity_timer example_game_paused"
      "lock_delay_timer (game_toggle_pause example_game_paused) =
         lock_delay_timer example_game_paused"
    by blast+
  show ?thesis
    unfolding u st by simp
qed

section \<open>Level progression\<close>

lemma lock_and_clear_progress:
  assumes "lock_and_clear g r = Inr g'"
  shows "stats_progress (level g) (lines_cleared g) g'"
proof -
  consider "locked_lines g \<le> 0" | "0 < locked_lines g" "locked_lines g < 5" | "5 \<le> locked_lines g"
    by linarith
  then show ?thesis
  proof cases
    case 1
    from lock_and_clear_none [OF 1, of r] assms show ?thesis
      by (auto simp: stats_progress_def)
  next
    case 2
    from lock_and_clear_cleared [OF 2, of r] assms 2 show ?thesis
      by (auto simp: stats_progress_def LINES_PER_LEVEL_def)
  next
    case 3
    from lock_and_clear_overflow [OF 3, of r] assms show ?thesis by simp
  qed
qed

lemma stats_progress_refl: "stats_progress (level g) (lines_cleared g) g"
  by (simp add: stats_progress_def)

lemma game_update_shape:
  "\<exists>h. level h = level g \<and> lines_cleared h = lines_cleared g \<and> board h = board g \<and>
     (game_update g dt rnd = lock_and_clear h rnd \<or> game_update g dt rnd = Inr h)"
proof (cases "state g = GAME_STATE_PLAYING")
  case False
  then have "game_update g dt rnd = Inr g" by (simp add: game_update_def)
  then show ?thesis by blast
next
  case True
  let ?g1 = "g\<lparr>gravity_timer := gravity_timer g + dt\<rparr>"
  obtain g2 where g2: "level g2 = level g \<and> lines_cleared g2 = lines_cleared g \<and>
      board g2 = board g"
    "game_update g dt rnd =
     (if is_on_ground g2 \<or> is_grounded g2 then
        (let g3 = g2\<lparr>is_on_ground := True, lock_delay_timer := lock_delay_timer g2 + dt\<rparr>
         in if lock_delay_timer g3 \<ge> LOCK_DELAY then lock_and_clear g3 rnd else Inr g3)
      else Inr (g2\<lparr>lock_delay_timer := 0\<rparr>))"
  proof (cases "gravity_timer ?g1 \<ge> game_get_gravity_speed ?g1")
    case f: False
    show ?thesis
      by (rule that [of ?g1]) (use True f in \<open>simp_all add: game_update_def\<close>)
  next
    case t: True
    let ?h = "?g1\<lparr>gravity_timer := 0\<rparr>"
    show ?thesis
    proof (cases "board_check_collision (board ?h) (current_piece ?h) (current_rotation ?h)
                (piece_x ?h) (piece_y ?h + 1)")
      case c: True
      show ?thesis
        by (rule that [of "?h\<lparr>is_on_ground := True\<rparr>"])
          (use True t c in \<open>simp_all add: game_update_def\<close>)
    next
      case c: False
      show ?thesis
        by (rule that [of "?h\<lparr>piece_y := piece_y ?h + 1, is_on_ground := False,
                            lock_delay_timer := 0\<rparr>"])
          (use True t c in \<open>simp_all add: game_update_def\<close>)
    qed
  qed
  let ?g3 = "g2\<lparr>is_on_ground := True, lock_delay_timer := lock_delay_timer g2 + dt\<rparr>"
  show ?thesis
  proof (cases "is_on_ground g2 \<or> is_grounded g2")
    case False
    then have "game_update g dt rnd = Inr (g2\<lparr>lock_delay_timer := 0\<rparr>)"
      unfolding g2(2) by simp
    then show ?thesis
      by (intro exI [of _ "g2\<lparr>lock_delay_timer := 0\<rparr>"]) (simp add: g2(1))
  next
    case grounded: True
    show ?thesis
    proof (cases "lock_delay_timer ?g3 \<ge> LOCK_DELAY")
      case True
      with grounded have "game_update g dt rnd = lock_and_clear ?g3 rnd"
        unfolding g2(2) Let_def by simp
      then show ?thesis by (intro exI [of _ ?g3]) (simp add: g2(1))
    next
      case False
      with grounded have "game_update g dt rnd = Inr ?g3"
        unfolding g2(2) Let_def by simp
      then show ?thesis by (intro exI [of _ ?g3]) (simp add: g2(1))
    qed
  qed
qed

lemma game_update_cases:
  assumes "game_update g dt rnd = Inr g'"
  shows "(\<exists>h. level h = level g \<and> lines_cleared h = lines_cleared g \<and> board h = board g \<and>
            lock_and_clear h rnd = Inr g') \<or>
     (level g' = level g \<and> lines_cleared g' = lines_cleared g \<and> board g' = board g)"
proof -
  from game_update_shape [of g dt rnd] obtain h where h:
      "level h = level g" "lines_cleared h = lines_cleared g" "board h = board g"
      "game_update g dt rnd = lock_and_clear h rnd \<or> game_update g dt rnd = Inr h"
    by blast
  from h(4) assms consider "lock_and_clear h rnd = Inr g'" | "g' = h" by auto
  then show ?thesis
    using h(1-3) by cases blast+
qed

lemma game_update_progress:
  assumes "game_update g dt rnd = Inr g'"
  shows "stats_progress (level g) (lines_cleared g) g'"
  using game_update_cases [OF assms]
proof
  assume "\<exists>h. level h = level g \<and> lines_cleared h = lines_cleared g \<and> board h = board g \<and>
      lock_and_clear h rnd = Inr g'"
  then obtain h where h: "level h = level g" "lines_cleared h = lines_cleared g"
      "lock_and_clear h rnd = Inr g'"
    by blast
  from lock_and_clear_progress [OF h(3)] show ?thesis
    by (simp add: h)
next
  assume "level g' = level g \<and> lines_cleared g' = lines_cleared g \<and> board g' = board g"
  then show ?thesis by (simp add: stats_progress_def)
qed

lemma game_hard_drop_progress:
  assumes "game_hard_drop g rnd = Some (Inr g')"
  shows "stats_progress (level g) (lines_cleared g) g'"
proof (cases "state g = GAME_STATE_PLAYING")
  case False
  with assms show ?thesis
    by (simp add: game_hard_drop_def stats_progress_def)
next
  case True
  obtain n where n: "hard_drop_loop g 0 = Some (g\<lparr>piece_y := piece_y g + n\<rparr>, 0 + n)"
    using hard_drop_loop_result [of g 0] by blast
  let ?g1 = "g\<lparr>piece_y := piece_y g + n\<rparr>"
  from assms True n have "lock_and_clear (?g1\<lparr>score := score ?g1 + n * 2\<rparr>) rnd = Inr g'"
    by (simp add: game_hard_drop_def)
  from lock_and_clear_progress [OF this] show ?thesis by simp
qed

lemma rotate_kicks_stats:
  "level (snd (rotate_kicks g nr ks)) = level g \<and>
   lines_cleared (snd (rotate_kicks g nr ks)) = lines_cleared g"
  by (induction ks) (simp_all add: Let_def)

lemma game_step_progress:
  assumes "game_step g g'"
  shows "stats_progress (level g) (lines_cleared g) g'"
  using assms
proof cases
  case move_left
  then show ?thesis by (simp add: stats_progress_def game_move_left_def Let_def)
next
  case move_right
  then show ?thesis by (simp add: stats_progress_def game_move_right_def Let_def)
next
  case move_down
  then show ?thesis by (simp add: stats_progress_def game_move_down_def Let_def)
next
  case rotate
  then show ?thesis by (simp add: stats_progress_def game_rotate_def rotate_kicks_stats)
next
  case (hard_drop rnd)
  then show ?thesis by (rule game_hard_drop_progress)
next
  case toggle_pause
  then show ?thesis by (simp add: stats_progress_def game_toggle_pause_def)
next
  case (update delta_time rnd)
  then show ?thesis by (rule game_update_progress)
qed

lemma game_step_level:
  assumes "game_step g g'" "0 \<le> lines_cleared g"
  shows "lines_cleared g \<le> lines_cleared g' \<and>
     (1 \<le> level g \<longrightarrow> 1 \<le> level g') \<and>
     (level g = 1 + lines_cleared g div 10 \<longrightarrow>
        level g' = 1 + lines_cleared g' div 10 \<and> level g \<le> level g')"
proof -
  from game_step_progress [OF assms(1)]
  consider "level g' = level g" "lines_cleared g' = lines_cleared g"
    | "lines_cleared g < lines_cleared g'" "level g' = 1 + lines_cleared g' sdiv 10"
    unfolding stats_progress_def LINES_PER_LEVEL_def by blast
  then show ?thesis
  proof cases
    case 1
    then show ?thesis by simp
  next
    case 2
    from 2(1) assms(2) have nn: "0 \<le> lines_cleared g'" by simp
    have "lines_cleared g div 10 \<le> lines_cleared g' div 10"
      using 2(1) by (intro zdiv_mono1) simp_all
    moreover from nn have "0 \<le> lines_cleared g' div 10"
      by simp
    ultimately show ?thesis
      using 2 nn by (simp add: sdiv_nonneg)
  qed
qed

lemma game_run_level:
  assumes "game_step\<^sup>*\<^sup>* g g'" "0 \<le> lines_cleared g"
  shows "lines_cleared g \<le> lines_cleared g' \<and>
     (1 \<le> level g \<longrightarrow> 1 \<le> level g') \<and>
     (level g = 1 + lines_cleared g div 10 \<longrightarrow>
        level g' = 1 + lines_cleared g' div 10 \<and> level g \<le> level g')"
  using assms
proof (induction rule: rtranclp_induct)
  case base
  show ?case by simp
next
  case (step h g')
  from step.IH [OF step.prems] have ih: "lines_cleared g \<le> lines_cleared h"
      "1 \<le> level g \<longrightarrow> 1 \<le> level h"
      "level g = 1 + lines_cleared g div 10 \<longrightarrow>
         level h = 1 + lines_cleared h div 10 \<and> level g \<le> level h"
    by blast+
  from ih(1) step.prems have "0 \<le> lines_cleared h" by simp
  from game_step_level [OF step.hyps(2) this] ih show ?case
    by auto
qed

lemma game_start_stats:
  "lines_cleared (game_set_starting_level (game_init rand1 rand2) lv) = 0 \<and>
   1 \<le> level (game_set_starting_level g0 lv) \<and> level (game_set_starting_level g0 lv) \<le> 10 \<and>
   (lv \<le> 1 \<longrightarrow> level (game_set_starting_level g0 lv) = 1)"
  by (simp add: game_set_starting_level_def game_init_def Let_def)

text \<open>
  C4, as the program has it. A game starts with \<open>game_set_starting_level\<close>, which puts the
  level in 1..10, with no line cleared. Along every run of actions and updates from a game
  whose line total is not negative, the line total never decreases and a level of 1 or
  above stays at 1 or above; and from a game whose level is \<open>1 + floor (lines_cleared / 10)\<close>,
  as a game started at level 1 is, every game of the run has its level given by that
  equation and a level not below the one the run began with. The level has no upper bound
  of 10: it follows the line total.
\<close>

theorem level_follows_lines:
  "lines_cleared (game_set_starting_level (game_init rand1 rand2) lv) = 0 \<and>
   1 \<le> level (game_set_starting_level g0 lv) \<and> level (game_set_starting_level g0 lv) \<le> 10 \<and>
   (game_step\<^sup>*\<^sup>* g g' \<and> 0 \<le> lines_cleared g \<and> 1 \<le> level g \<longrightarrow>
      1 \<le> level g' \<and> lines_cleared g \<le> lines_cleared g') \<and>
   (game_step\<^sup>*\<^sup>* g g' \<and> 0 \<le> lines_cleared g \<and> level g = 1 + lines_cleared g div 10 \<longrightarrow>
      level g' = 1 + lines_cleared g' div 10 \<and> level g \<le> level g')"
  using game_start_stats [of rand1 rand2 lv g0] game_run_level [of g g']
  by blast

lemma locked_lines_score: "locked_lines (g\<lparr>score := s\<rparr>) = locked_lines g"
  by (simp add: locked_lines_def)

lemma example_game_tetris_locked_lines: "locked_lines example_game_tetris = 4"
proof -
  let ?g = example_game_tetris
  have f: "current_piece ?g = PIECE_I" "current_rotation ?g = ROT_90" "piece_x ?g = 7"
      "piece_y ?g = 16"
    by (simp_all add: example_game_tetris_def)
  let ?locked = "board_lock_piece (board ?g) PIECE_I ROT_90 7 16"
  have rows: "board_rows ?locked =
     [[0, 0, 0, 0, 0, 0, 0, 0, 0, 0],
      [0, 0, 0, 0, 0, 0, 0, 0, 0, 0],
      [0, 0, 0, 0, 0, 0, 0, 0, 0, 0],
      [0, 0, 0, 0, 0, 0, 0, 0, 0, 0],
      [0, 0, 0, 0, 0, 0, 0, 0, 0, 0],
      [0, 0, 0, 0, 0, 0, 0, 0, 0, 0],
      [0, 0, 0, 0, 0, 0, 0, 0, 0, 0],
      [0, 0, 0, 0, 0, 0, 0, 0, 0, 0],
      [0, 0, 0, 0, 0, 0, 0, 0, 0, 0],
      [0, 0, 0, 0, 0, 0, 0, 0, 0, 0],
      [0, 0, 0, 0, 0, 0, 0, 0, 0, 0],
      [0, 0, 0, 0, 0, 0, 0, 0, 0, 0],
      [0, 0, 0, 0, 0, 0, 0, 0, 0, 0],
      [0, 0, 0, 0, 0, 0, 0, 0, 0, 0],
      [0, 0, 0, 0, 0, 0, 0, 0, 0, 0],
      [0, 0, 0, 0, 0, 0, 0, 0, 0, 0],
      [2, 2, 2, 2, 2, 2, 2, 2, 2, 1],
      [2, 2, 2, 2, 2, 2, 2, 2, 2, 1],
      [2, 2, 2, 2, 2, 2, 2, 2, 2, 1],
      [2, 2, 2, 2, 2, 2, 2, 2, 2, 1]]"
    by (simp add: board_rows_def cells_board_lock_piece piece_cells_def piece_get_shape_def
        piece_get_color_def example_game_tetris_def BOARD_WIDTH_def BOARD_HEIGHT_def
        upto_0_9 upto_0_19)
  show ?thesis
    unfolding locked_lines_def f using board_clear_lines_refines [of ?locked]
    by (simp add: spec_clear_full_lines_def Let_def rows row_full_def)
qed

lemma example_game_99_locked_lines: "locked_lines (example_game_99\<lparr>piece_y := 18\<rparr>) = 1"
proof -
  let ?g = example_game_99
  have f: "current_piece ?g = PIECE_I" "current_rotation ?g = ROT_0" "piece_x ?g = 0"
    by (simp_all add: example_game_99_def)
  let ?locked = "board_lock_piece (board ?g) PIECE_I ROT_0 0 18"
  have rows: "board_rows ?locked =
     [[0, 0, 0, 0, 0, 0, 0, 0, 0, 0],
      [0, 0, 0, 0, 0, 0, 0, 0, 0, 0],
      [0, 0, 0, 0, 0, 0, 0, 0, 0, 0],
      [0, 0, 0, 0, 0, 0, 0, 0, 0, 0],
      [0, 0, 0, 0, 0, 0, 0, 0, 0, 0],
      [0, 0, 0, 0, 0, 0, 0, 0, 0, 0],
      [0, 0, 0, 0, 0, 0, 0, 0, 0, 0],
      [0, 0, 0, 0, 0, 0, 0, 0, 0, 0],
      [0, 0, 0, 0, 0, 0, 0, 0, 0, 0],
      [0, 0, 0, 0, 0, 0, 0, 0, 0, 0],
      [0, 0, 0, 0, 0, 0, 0, 0, 0, 0],
      [0, 0, 0, 0, 0, 0, 0, 0, 0, 0],
      [0, 0, 0, 0, 0, 0, 0, 0, 0, 0],
      [0, 0, 0, 0, 0, 0, 0, 0, 0, 0],
      [0, 0, 0, 0, 0, 0, 0, 0, 0, 0],
      [0, 0, 0, 0, 0, 0, 0, 0, 0, 0],
      [0, 0, 0, 0, 0, 0, 0, 0, 0, 0],
      [0, 0, 0, 0, 0, 0, 0, 0, 0, 0],
      [0, 0, 0, 0, 0, 0, 0, 0, 0, 0],
      [1, 1, 1, 1, 2, 2, 2, 2, 2, 2]]"
    by (simp add: board_rows_def cells_board_lock_piece piece_cells_def piece_get_shape_def
        piece_get_color_def example_game_99_def BOARD_WIDTH_def BOARD_HEIGHT_def
        upto_0_9 upto_0_19)
  have "snd (board_clear_lines ?locked) = 1"
    using board_clear_lines_refines [of ?locked]
    by (simp add: spec_clear_full_lines_def Let_def rows row_full_def)
  then show ?thesis
    by (simp add: locked_lines_def f)
qed

lemma example_game_tetris_drop:
  "\<exists>g'. game_hard_drop example_game_tetris 0 = Some (Inr g') \<and>
     lines_cleared g' = 30 \<and> level g' = 4"
proof -
  let ?g = example_game_tetris
  have st: "state ?g = GAME_STATE_PLAYING" "lines_cleared ?g = 26"
    by (simp_all add: example_game_tetris_def)
  have loop: "hard_drop_loop ?g 0 = Some (?g, 0)"
    by (subst hard_drop_loop.simps)
      (simp add: example_game_tetris_def board_check_collision_def piece_get_shape_def
        BOARD_WIDTH_def BOARD_HEIGHT_def)
  let ?h = "?g\<lparr>score := score ?g + 0 * 2\<rparr>"
  have cnt: "locked_lines ?h = 4"
    by (simp only: locked_lines_score example_game_tetris_locked_lines)
  have "0 < locked_lines ?h" "locked_lines ?h < 5"
    by (simp_all only: cnt)
  from lock_and_clear_cleared [OF this, of 0] obtain g' where g':
      "lock_and_clear ?h 0 = Inr g'" "lines_cleared g' = lines_cleared ?h + locked_lines ?h"
      "level g' = 1 + (lines_cleared ?h + locked_lines ?h) sdiv 10"
    by blast
  have "game_hard_drop ?g 0 = Some (Inr g')"
    unfolding game_hard_drop_def loop using st(1) g'(1) by simp
  moreover have "lines_cleared g' = 30" "level g' = 4"
    unfolding g'(2,3) cnt by (simp_all add: st sdiv_nonneg)
  ultimately show ?thesis by blast
qed

theorem level_follows_lines_witness:
  "level (game_set_starting_level (game_init 0 0) 12) \<le> 10 \<and>
   lines_cleared example_game_tetris = 26 \<and> level example_game_tetris = 3 \<and>
   game_step example_game_tetris (projr (the (game_hard_drop example_game_tetris 0))) \<and>
   level example_game_tetris \<le> level (projr (the (game_hard_drop example_game_tetris 0))) \<and>
   level (projr (the (game_hard_drop example_game_tetris 0))) =
     1 + lines_cleared (projr (the (game_hard_drop example_game_tetris 0))) div 10"
proof -
  let ?g = example_game_tetris
  obtain g' where g': "game_hard_drop ?g 0 = Some (Inr g')"
    using example_game_tetris_drop by blast
  have st: "lines_cleared ?g = 26" "level ?g = 3"
    by (simp_all add: example_game_tetris_def)
  have step: "game_step ?g g'"
    by (rule game_step.hard_drop [OF g'])
  then have run: "game_step\<^sup>*\<^sup>* ?g g'"
    by (rule r_into_rtranclp)
  have h: "0 \<le> lines_cleared ?g" "level ?g = 1 + lines_cleared ?g div 10"
    by (simp_all add: st)
  note t = level_follows_lines [of 0 0 12 "game_init 0 0" ?g g']
  from t run h have c: "level g' = 1 + lines_cleared g' div 10 \<and> level ?g \<le> level g'"
    by blast
  from t have r: "level (game_set_starting_level (game_init 0 0) 12) \<le> 10"
    by blast
  from r st step c show ?thesis
    by (simp add: g')
qed

text \<open>
  The level is not confined to 1..10: in a game at level 10 with 99 lines, the hard drop
  that completes row 19 clears the hundredth line and the level becomes 11.
\<close>

theorem level_exceeds_ten:
  "state example_game_99 = GAME_STATE_PLAYING \<and> level example_game_99 = 10 \<and>
   lines_cleared example_game_99 = 99 \<and>
   map_option (map_sum id level) (game_hard_drop example_game_99 0) = Some (Inr 11)"
proof -
  let ?g = example_game_99
  have st: "state ?g = GAME_STATE_PLAYING" "level ?g = 10" "lines_cleared ?g = 99"
    by (simp_all add: example_game_99_def)
  have loop: "hard_drop_loop ?g 0 = Some (?g\<lparr>piece_y := 18\<rparr>, 18)"
    by (simp add: hard_drop_loop.simps example_game_99_def board_check_collision_def
        piece_get_shape_def BOARD_WIDTH_def BOARD_HEIGHT_def)
  let ?g18 = "?g\<lparr>piece_y := 18\<rparr>"
  let ?h = "?g18\<lparr>score := score ?g18 + 18 * 2\<rparr>"
  have cnt: "locked_lines ?h = 1"
    by (simp only: locked_lines_score example_game_99_locked_lines)
  have "0 < locked_lines ?h" "locked_lines ?h < 5"
    by (simp_all only: cnt)
  from lock_and_clear_cleared [OF this, of 0] obtain g' where g':
      "lock_and_clear ?h 0 = Inr g'"
      "level g' = 1 + (lines_cleared ?h + locked_lines ?h) sdiv 10"
    by blast
  have "game_hard_drop ?g 0 = Some (Inr g')"
    unfolding game_hard_drop_def loop using st(1) g'(1) by simp
  moreover have "level g' = 11"
    unfolding g'(2) cnt by (simp add: st sdiv_nonneg)
  ultimately have "map_option (map_sum id level) (game_hard_drop ?g 0) = Some (Inr 11)"
    by simp
  with st show ?thesis by simp
qed

section \<open>The boards of a game\<close>

lemma lock_and_clear_board:
  assumes "lock_and_clear g r = Inr g'"
  shows "board g' = fst (board_clear_lines (board_lock_piece (board g) (current_piece g)
           (current_rotation g) (piece_x g) (piece_y g)))"
  using assms
  by (auto simp: lock_and_clear_def Let_def split_def game_spawn_piece_stats split: if_splits)

lemma lock_and_clear_board_reachable:
  assumes "lock_and_clear g r = Inr g'" "board_reachable (board g)"
  shows "board_reachable (board g')"
  unfolding lock_and_clear_board [OF assms(1)]
  by (intro board_reachable.clear board_reachable.lock assms(2))

lemma rotate_kicks_board: "board (snd (rotate_kicks g nr ks)) = board g"
  by (induction ks) (simp_all add: Let_def)

lemma game_step_board_reachable:
  assumes "game_step g g'" "board_reachable (board g)"
  shows "board_reachable (board g')"
  using assms(1)
proof cases
  case move_left
  with assms(2) show ?thesis by (simp add: game_move_left_def Let_def)
next
  case move_right
  with assms(2) show ?thesis by (simp add: game_move_right_def Let_def)
next
  case move_down
  with assms(2) show ?thesis by (simp add: game_move_down_def Let_def)
next
  case rotate
  with assms(2) show ?thesis by (simp add: game_rotate_def rotate_kicks_board)
next
  case (hard_drop rnd)
  show ?thesis
  proof (cases "state g = GAME_STATE_PLAYING")
    case False
    with hard_drop assms(2) show ?thesis by (simp add: game_hard_drop_def)
  next
    case True
    obtain n where n: "hard_drop_loop g 0 = Some (g\<lparr>piece_y := piece_y g + n\<rparr>, 0 + n)"
      using hard_drop_loop_result [of g 0] by blast
    let ?g1 = "g\<lparr>piece_y := piece_y g + n\<rparr>"
    from hard_drop True n
    have "lock_and_clear (?g1\<lparr>score := score ?g1 + n * 2\<rparr>) rnd = Inr g'"
      by (simp add: game_hard_drop_def)
    from lock_and_clear_board_reachable [OF this] assms(2) show ?thesis by simp
  qed
next
  case toggle_pause
  with assms(2) show ?thesis by (simp add: game_toggle_pause_def)
next
  case (update delta_time rnd)
  from game_update_cases [OF update] show ?thesis
  proof
    assume "\<exists>h. level h = level g \<and> lines_cleared h = lines_cleared g \<and> board h = board g \<and>
      lock_and_clear h rnd = Inr g'"
    then obtain h where "board h = board g" "lock_and_clear h rnd = Inr g'" by blast
    with lock_and_clear_board_reachable [of h rnd g'] assms(2) show ?thesis by simp
  next
    assume "level g' = level g \<and> lines_cleared g' = lines_cleared g \<and> board g' = board g"
    with assms(2) show ?thesis by simp
  qed
qed

lemma game_run_board_reachable:
  assumes "game_step\<^sup>*\<^sup>* g g'" "board_reachable (board g)"
  shows "board_reachable (board g')"
  using assms by (induction rule: rtranclp_induct) (auto intro: game_step_board_reachable)

lemma game_start_board_reachable:
  "board_reachable (board (game_set_starting_level (game_init rand1 rand2) lv))"
  by (simp add: game_set_starting_level_def game_init_def Let_def board_reachable.init)

text \<open>
  C9. \<open>board_get_cell\<close> has no failing branch: for every board and all integers \<open>x\<close>, \<open>y\<close> it
  returns a value, 0 (empty) when \<open>x < 0\<close>, \<open>x \<ge> 10\<close>, \<open>y < 0\<close> or \<open>y \<ge> 20\<close>, and the stored cell
  \<open>cells[y][x]\<close> otherwise; on every board built from \<open>board_init\<close> by locking pieces and
  clearing lines that value is 0 or one of the colours 1..7. The board of a game is such a
  board from its start and along every run of actions and updates.
\<close>

theorem board_get_cell_total:
  "(x < 0 \<or> x \<ge> 10 \<or> y < 0 \<or> y \<ge> 20 \<longrightarrow> board_get_cell b x y = 0) \<and>
   (0 \<le> x \<and> x < 10 \<and> 0 \<le> y \<and> y < 20 \<longrightarrow> board_get_cell b x y = cells b y x) \<and>
   (board_reachable b \<longrightarrow> 0 \<le> board_get_cell b x y \<and> board_get_cell b x y \<le> 7) \<and>
   (game_step\<^sup>*\<^sup>* (game_set_starting_level (game_init rand1 rand2) lv) g \<longrightarrow>
      board_reachable (board g))"
proof -
  have "game_step\<^sup>*\<^sup>* (game_set_starting_level (game_init rand1 rand2) lv) g \<longrightarrow>
      board_reachable (board g)"
    using game_run_board_reachable [OF _ game_start_board_reachable] by blast
  moreover
  have "board_reachable b \<longrightarrow> 0 \<le> board_get_cell b x y \<and> board_get_cell b x y \<le> 7"
    using board_reachable_in_domain [of b]
    by (auto simp: cells_in_domain_def board_get_cell_def)
  ultimately show ?thesis
    by (auto simp: board_get_cell_def BOARD_WIDTH_def BOARD_HEIGHT_def)
qed

theorem board_get_cell_total_witness:
  "board_reachable (board_lock_piece board_init PIECE_L ROT_0 3 0) \<and>
   board_get_cell (board_lock_piece board_init PIECE_L ROT_0 3 0) (- 1) 0 = 0 \<and>
   board_get_cell (board_lock_piece board_init PIECE_L ROT_0 3 0) 10 0 = 0 \<and>
   board_get_cell (board_lock_piece board_init PIECE_L ROT_0 3 0) 0 (- 1) = 0 \<and>
   board_get_cell (board_lock_piece board_init PIECE_L ROT_0 3 0) 0 20 = 0 \<and>
   board_get_cell (board_lock_piece board_init PIECE_L ROT_0 3 0) 5 0 =
     cells (board_lock_piece board_init PIECE_L ROT_0 3 0) 0 5 \<and>
   0 \<le> board_get_cell (board_lock_piece board_init PIECE_L ROT_0 3 0) 5 0 \<and>
   board_get_cell (board_lock_piece board_init PIECE_L ROT_0 3 0) 5 0 \<le> 7 \<and>
   board_reachable (board (game_toggle_pause (game_set_starting_level (game_init 0 0) 5)))"
proof -
  let ?b = "board_lock_piece board_init PIECE_L ROT_0 3 0"
  let ?g0 = "game_set_starting_level (game_init 0 0) 5"
  have r: "board_reachable ?b"
    by (rule board_reachable.lock [OF board_reachable.init])
  have run: "game_step\<^sup>*\<^sup>* ?g0 (game_toggle_pause ?g0)"
    by (rule r_into_rtranclp) (rule game_step.toggle_pause)
  have out: "board_get_cell ?b (- 1) 0 = 0" "board_get_cell ?b 10 0 = 0"
      "board_get_cell ?b 0 (- 1) = 0" "board_get_cell ?b 0 20 = 0"
    using board_get_cell_total [of "- 1" 0 ?b 0 0 5 ?g0] board_get_cell_total [of 10 0 ?b 0 0 5 ?g0]
      board_get_cell_total [of 0 "- 1" ?b 0 0 5 ?g0] board_get_cell_total [of 0 20 ?b 0 0 5 ?g0]
    by simp_all
  have inside: "board_get_cell ?b 5 0 = cells ?b 0 5"
      "0 \<le> board_get_cell ?b 5 0" "board_get_cell ?b 5 0 \<le> 7"
      "board_reachable (board (game_toggle_pause ?g0))"
    using r run board_get_cell_total [of 5 0 ?b 0 0 5 "game_toggle_pause ?g0"]
    by simp_all
  from r out inside show ?thesis by blast
qed

section \<open>At most four rows are cleared at a time\<close>

lemma no_full_row_iff: "no_full_row b = (\<forall>y. 0 \<le> y \<and> y < 20 \<longrightarrow> \<not> line_full b y)"
  by (auto simp: no_full_row_def list_all_iff BOARD_HEIGHT_def)

lemma no_full_row_init: "no_full_row board_init"
  by (auto simp: no_full_row_iff line_full_iff board_init_def BOARD_WIDTH_def intro: exI [of _ 0])

lemma no_full_row_rows: "no_full_row b = (\<forall>r \<in> set (board_rows b). \<not> row_full r)"
proof -
  have "(\<forall>r \<in> set (board_rows b). \<not> row_full r) = (\<forall>i<20. \<not> row_full (board_rows b ! i))"
    by (simp add: all_set_conv_all_nth length_board_rows)
  also have "\<dots> = (\<forall>i<20. \<not> line_full b (int i))"
    by (simp add: row_full_nth_board_rows)
  also have "\<dots> = (\<forall>y. 0 \<le> y \<and> y < 20 \<longrightarrow> \<not> line_full b y)"
  proof
    assume h: "\<forall>i<20. \<not> line_full b (int i)"
    show "\<forall>y. 0 \<le> y \<and> y < 20 \<longrightarrow> \<not> line_full b y"
    proof (intro allI impI)
      fix y :: int assume "0 \<le> y \<and> y < 20"
      then have "nat y < 20" "int (nat y) = y" by auto
      with h show "\<not> line_full b y" by metis
    qed
  next
    assume "\<forall>y. 0 \<le> y \<and> y < 20 \<longrightarrow> \<not> line_full b y"
    then show "\<forall>i<20. \<not> line_full b (int i)" by simp
  qed
  finally show ?thesis by (simp add: no_full_row_iff)
qed

lemma no_full_row_clear: "no_full_row (fst (board_clear_lines b))"
  unfolding no_full_row_rows
  using board_clear_lines_refines [of b]
  by (auto simp: spec_clear_full_lines_def Let_def not_row_full_empty_row)

lemma full_row_after_lock:
  assumes "no_full_row b" "0 \<le> r" "r < 20"
    and "line_full (board_lock_piece b type rotation x y) r"
  shows "r \<in> snd ` set (piece_cells type rotation x y)"
proof -
  from assms(1-3) have "\<not> line_full b r"
    by (simp add: no_full_row_iff)
  then obtain c where c: "0 \<le> c" "c < BOARD_WIDTH" "cells b r c = 0"
    by (auto simp: line_full_iff)
  with assms(4) have "cells (board_lock_piece b type rotation x y) r c \<noteq> 0"
    by (auto simp: line_full_iff)
  with c(3) have "(c, r) \<in> set (piece_cells type rotation x y)"
    by (auto simp: cells_board_lock_piece split: if_splits)
  then show ?thesis by force
qed

lemma count_full_rows_after_lock:
  assumes "no_full_row b"
  shows "length (filter row_full (board_rows (board_lock_piece b type rotation x y))) \<le> 4"
proof -
  let ?b' = "board_lock_piece b type rotation x y"
  let ?cs = "piece_cells type rotation x y"
  have "length (filter row_full (board_rows ?b')) =
      card {i. i < 20 \<and> row_full (board_rows ?b' ! i)}"
    by (simp add: length_filter_conv_card length_board_rows)
  also have "\<dots> \<le> card (nat ` snd ` set ?cs)"
  proof (rule card_mono)
    show "finite (nat ` snd ` set ?cs)" by simp
    show "{i. i < 20 \<and> row_full (board_rows ?b' ! i)} \<subseteq> nat ` snd ` set ?cs"
    proof
      fix i assume "i \<in> {i. i < 20 \<and> row_full (board_rows ?b' ! i)}"
      then have i: "i < 20" "line_full ?b' (int i)"
        by (auto simp: row_full_nth_board_rows)
      from full_row_after_lock [OF assms _ _ i(2)] i(1)
      have "int i \<in> snd ` set ?cs" by simp
      then have "nat (int i) \<in> nat ` snd ` set ?cs" by (rule imageI)
      then show "i \<in> nat ` snd ` set ?cs" by simp
    qed
  qed
  also have "\<dots> \<le> card (set ?cs)"
    by (metis card_image_le List.finite_set finite_imageI order_trans)
  also have "\<dots> \<le> length ?cs"
    by (rule card_length)
  also have "\<dots> = 4"
    by (simp add: piece_cells_def length_piece_get_shape)
  finally show ?thesis .
qed

lemma locked_lines_range:
  assumes "no_full_row (board g)"
  shows "0 \<le> locked_lines g \<and> locked_lines g \<le> 4"
proof -
  let ?locked = "board_lock_piece (board g) (current_piece g) (current_rotation g)
      (piece_x g) (piece_y g)"
  have "snd (board_clear_lines ?locked) = int (length (filter row_full (board_rows ?locked)))"
    using board_clear_lines_refines [of ?locked]
      sum_length_filter_compl [of row_full "board_rows ?locked"]
    by (simp add: spec_clear_full_lines_def Let_def)
  with count_full_rows_after_lock [OF assms] show ?thesis
    by (simp add: locked_lines_def)
qed

lemma lock_and_clear_returns:
  assumes "no_full_row (board g)"
  shows "\<exists>g'. lock_and_clear g r = Inr g' \<and> no_full_row (board g')"
proof -
  from locked_lines_range [OF assms]
  consider "locked_lines g \<le> 0" | "0 < locked_lines g" "locked_lines g < 5"
    by linarith
  then obtain g' where g': "lock_and_clear g r = Inr g'"
    using lock_and_clear_none [of g r] lock_and_clear_cleared [of g r] by cases blast+
  from lock_and_clear_board [OF g'] have "no_full_row (board g')"
    by (simp add: no_full_row_clear)
  with g' show ?thesis by blast
qed

lemma game_hard_drop_shape:
  "\<exists>h. board h = board g \<and>
     (game_hard_drop g rnd = Some (lock_and_clear h rnd) \<or> game_hard_drop g rnd = Some (Inr h))"
proof (cases "state g = GAME_STATE_PLAYING")
  case False
  then have "game_hard_drop g rnd = Some (Inr g)" by (simp add: game_hard_drop_def)
  then show ?thesis by blast
next
  case True
  obtain n where n: "hard_drop_loop g 0 = Some (g\<lparr>piece_y := piece_y g + n\<rparr>, 0 + n)"
    using hard_drop_loop_result [of g 0] by blast
  let ?g1 = "g\<lparr>piece_y := piece_y g + n\<rparr>"
  from True n
  have "game_hard_drop g rnd = Some (lock_and_clear (?g1\<lparr>score := score ?g1 + n * 2\<rparr>) rnd)"
    by (simp add: game_hard_drop_def)
  then show ?thesis
    by (intro exI [of _ "?g1\<lparr>score := score ?g1 + n * 2\<rparr>"]) simp
qed

lemma game_step_no_full_row:
  assumes "game_step g g'" "no_full_row (board g)"
  shows "no_full_row (board g')"
  using assms(1)
proof cases
  case move_left
  with assms(2) show ?thesis by (simp add: game_move_left_def Let_def)
next
  case move_right
  with assms(2) show ?thesis by (simp add: game_move_right_def Let_def)
next
  case move_down
  with assms(2) show ?thesis by (simp add: game_move_down_def Let_def)
next
  case rotate
  with assms(2) show ?thesis by (simp add: game_rotate_def rotate_kicks_board)
next
  case (hard_drop rnd)
  from game_hard_drop_shape [of g rnd] obtain h where h: "board h = board g"
      "game_hard_drop g rnd = Some (lock_and_clear h rnd) \<or> game_hard_drop g rnd = Some (Inr h)"
    by blast
  from h(2) hard_drop consider "lock_and_clear h rnd = Inr g'" | "g' = h" by auto
  then show ?thesis
  proof cases
    case 1
    from lock_and_clear_board [OF 1] show ?thesis by (simp add: no_full_row_clear)
  next
    case 2
    with h(1) assms(2) show ?thesis by simp
  qed
next
  case toggle_pause
  with assms(2) show ?thesis by (simp add: game_toggle_pause_def)
next
  case (update delta_time rnd)
  from game_update_shape [of g delta_time rnd] obtain h where h: "board h = board g"
      "game_update g delta_time rnd = lock_and_clear h rnd \<or> game_update g delta_time rnd = Inr h"
    by blast
  from h(2) update consider "lock_and_clear h rnd = Inr g'" | "g' = h" by auto
  then show ?thesis
  proof cases
    case 1
    from lock_and_clear_board [OF 1] show ?thesis by (simp add: no_full_row_clear)
  next
    case 2
    with h(1) assms(2) show ?thesis by simp
  qed
qed

lemma game_run_no_full_row:
  assumes "game_step\<^sup>*\<^sup>* g g'" "no_full_row (board g)"
  shows "no_full_row (board g')"
  using assms by (induction rule: rtranclp_induct) (auto intro: game_step_no_full_row)

text \<open>
  Along every run from the start of a game no row of the board is full between two calls,
  so a lock fills at most the four rows of the piece: \<open>game_update\<close> and \<open>game_hard_drop\<close>
  return a game, and \<open>LINE_CLEAR_SCORES\<close> is never read outside its five entries.
\<close>

lemma game_run_no_error:
  assumes "game_step\<^sup>*\<^sup>* (game_set_starting_level (game_init rand1 rand2) lv) g"
  shows "no_full_row (board g) \<and> locked_lines g \<le> 4 \<and>
     (\<exists>g'. game_update g dt rnd = Inr g') \<and> (\<exists>g'. game_hard_drop g rnd = Some (Inr g'))"
proof -
  have "no_full_row (board (game_set_starting_level (game_init rand1 rand2) lv))"
    by (simp add: game_set_starting_level_def game_init_def Let_def no_full_row_init)
  from game_run_no_full_row [OF assms this] have nf: "no_full_row (board g)" .
  have ret: "\<exists>g'. lock_and_clear h rnd = Inr g'" if "board h = board g" for h
    using lock_and_clear_returns [of h rnd] nf that by auto
  have u: "\<exists>g'. game_update g dt rnd = Inr g'"
    using game_update_shape [of g dt rnd] ret by auto
  have d: "\<exists>g'. game_hard_drop g rnd = Some (Inr g')"
    using game_hard_drop_shape [of g rnd] ret by auto
  from nf locked_lines_range [OF nf] u d show ?thesis by blast
qed

end
